theory Spec2Isabelle
  imports Main "HOL-Library.Multiset" "HOL-Library.Sublist"
begin

section \<open>JavaScript values\<close>

text \<open>
  The gateway of \<^verbatim>\<open>src/Facebook.js\<close> receives parsed JSON (the webhook body), a query
  object and a header object. Their values are modelled by one datatype of JavaScript
  values. A number is held as the string that JavaScript's conversion of a number to a
  string gives for it (\<^verbatim>\<open>"123"\<close>, \<^verbatim>\<open>"0.5"\<close>, \<^verbatim>\<open>"1e+21"\<close>, \<^verbatim>\<open>"NaN"\<close>): two numbers
  are the same value exactly when these strings are equal, but for the two zeros, which
  both give \<^verbatim>\<open>"0"\<close> and which nothing in the source tells apart. An object is its list of
  own properties; a property is read with \<open>js_get\<close>, the first entry of a name being
  the property.
\<close>

type_synonym number = string

datatype json =
    JUndefined
  | JNull
  | JBool bool
  | JNum number
  | JStr string
  | JArr "json list"
  | JObj "(string \<times> json) list"

type_synonym obj = "(string \<times> json) list"

text \<open>\<^verbatim>\<open>o[k]\<close> on an object: the value of the property, \<^verbatim>\<open>undefined\<close> when there is none.\<close>

definition obj_get :: "obj \<Rightarrow> string \<Rightarrow> json" where
  "obj_get fs k = (case map_of fs k of None \<Rightarrow> JUndefined | Some v \<Rightarrow> v)"

text \<open>
  \<^verbatim>\<open>v[k]\<close> on any value. The source reads a property of a value other than the message,
  the body, the headers and the query only behind a truthiness test of that value
  (\<^verbatim>\<open>message.sender && message.sender.id\<close>, \<^verbatim>\<open>if (message.take_thread_control)\<close>), so
  the value is never \<^verbatim>\<open>undefined\<close> or \<^verbatim>\<open>null\<close> there and the read cannot throw; on a
  primitive or an array the property names read by the source (\<^verbatim>\<open>id\<close>,
  \<^verbatim>\<open>previous_owner_app_id\<close>) do not exist and the read gives \<^verbatim>\<open>undefined\<close>.
\<close>

fun js_get :: "json \<Rightarrow> string \<Rightarrow> json" where
  "js_get (JObj fs) k = obj_get fs k"
| "js_get _ k = JUndefined"

text \<open>JavaScript's ToBoolean.\<close>

fun truthy :: "json \<Rightarrow> bool" where
  "truthy JUndefined = False"
| "truthy JNull = False"
| "truthy (JBool b) = b"
| "truthy (JNum n) = (n \<noteq> ''0'' \<and> n \<noteq> ''NaN'')"
| "truthy (JStr s) = (s \<noteq> [])"
| "truthy (JArr _) = True"
| "truthy (JObj _) = True"

text \<open>\<^verbatim>\<open>a && b\<close> and \<^verbatim>\<open>a || b\<close> on values.\<close>

definition js_and :: "json \<Rightarrow> json \<Rightarrow> json" where
  "js_and a b = (if truthy a then b else a)"

definition js_or :: "json \<Rightarrow> json \<Rightarrow> json" where
  "js_or a b = (if truthy a then a else b)"

text \<open>
  \<^verbatim>\<open>a === b\<close> between two values that come from different places (the query and the
  configuration): primitives are compared by value, \<^verbatim>\<open>NaN\<close> being equal to nothing, and
  two arrays or two objects are never the same reference.
\<close>

fun is_primitive :: "json \<Rightarrow> bool" where
  "is_primitive (JArr _) = False"
| "is_primitive (JObj _) = False"
| "is_primitive _ = True"

definition strict_eq :: "json \<Rightarrow> json \<Rightarrow> bool" where
  "strict_eq a b = (is_primitive a \<and> a = b \<and> a \<noteq> JNum ''NaN'')"

section \<open>Errors\<close>

text \<open>
  What the gateway can throw or reject with: the error built by
  \<^verbatim>\<open>_getUnauthorizedError\<close> (a message, and the fields \<^verbatim>\<open>code\<close> and \<^verbatim>\<open>status\<close>), a
  \<^verbatim>\<open>TypeError\<close> of the runtime, and whatever the processor rejects with.
\<close>

datatype js_error =
    HttpError (err_message: string) (err_code: int) (err_status: int)
  | TypeError
  | ProcessorError string

definition getUnauthorizedError :: "string \<Rightarrow> js_error" where
  "getUnauthorizedError message = HttpError (''Unauthorized: '' @ message) 401 401"

section \<open>Conversion to a string\<close>

fun intersperse :: "'a list \<Rightarrow> 'a list list \<Rightarrow> 'a list" where
  "intersperse sep [] = []"
| "intersperse sep [x] = x"
| "intersperse sep (x # y # ys) = x @ sep @ intersperse sep (y # ys)"

text \<open>The results of a list of evaluations made from left to right: the first error wins.\<close>

fun first_error :: "(js_error + 'a) list \<Rightarrow> js_error + 'a list" where
  "first_error [] = Inr []"
| "first_error (Inl e # rs) = Inl e"
| "first_error (Inr x # rs) = (case first_error rs of Inl e \<Rightarrow> Inl e | Inr xs \<Rightarrow> Inr (x # xs))"

text \<open>
  The string a template literal \<^verbatim>\<open>`${v}`\<close> gives (ToString), or the error it throws.
  An array is converted by \<^verbatim>\<open>Array.prototype.join\<close>: its elements converted and joined
  with a comma, \<^verbatim>\<open>null\<close> and \<^verbatim>\<open>undefined\<close> elements giving the empty string. An object is
  converted by the first callable one of its \<^verbatim>\<open>toString\<close> and \<^verbatim>\<open>valueOf\<close> that answers
  with a primitive. A property of a parsed body is never callable, so an object with a
  property \<^verbatim>\<open>toString\<close> of its own hides \<^verbatim>\<open>Object.prototype.toString\<close>, is left with a
  \<^verbatim>\<open>valueOf\<close> that is not callable or answers with the object itself, and the conversion
  throws a \<^verbatim>\<open>TypeError\<close>; any other object gives \<^verbatim>\<open>[object Object]\<close>.
\<close>

fun template_string :: "json \<Rightarrow> js_error + string" where
  "template_string JUndefined = Inr ''undefined''"
| "template_string JNull = Inr ''null''"
| "template_string (JBool b) = Inr (if b then ''true'' else ''false'')"
| "template_string (JNum n) = Inr n"
| "template_string (JStr s) = Inr s"
| "template_string (JArr xs) =
     (case first_error (map (\<lambda>x. if x = JUndefined \<or> x = JNull then Inr [] else template_string x) xs) of
        Inl e \<Rightarrow> Inl e
      | Inr ss \<Rightarrow> Inr (intersperse '','' ss))"
| "template_string (JObj fs) =
     (if map_of fs ''toString'' \<noteq> None then Inl TypeError else Inr ''[object Object]'')"

section \<open>Configuration\<close>

text \<open>
  The options object of the constructor, with the types of its JSDoc: every option is a
  string, and an option that was not given is \<open>None\<close> (\<^verbatim>\<open>undefined\<close>). The page token,
  the attachment storage and the request library are handed to the sender adapter only.
\<close>

record options =
  pageToken :: "string option"
  appId :: "string option"
  botToken :: "string option"
  appSecret :: "string option"
  passThreadAction :: "string option"
  takeThreadAction :: "string option"
  requestThreadAction :: "string option"

text \<open>An optional string option as a JavaScript value, and the test \<^verbatim>\<open>if (option)\<close>.\<close>

definition opt_value :: "string option \<Rightarrow> json" where
  "opt_value x = (case x of None \<Rightarrow> JUndefined | Some s \<Rightarrow> JStr s)"

definition is_set :: "string option \<Rightarrow> bool" where
  "is_set x = truthy (opt_value x)"

section \<open>Webhook verification\<close>

definition verifyWebhook :: "options \<Rightarrow> obj \<Rightarrow> js_error + json" where
  "verifyWebhook opts queryString =
     (if \<not> is_set (botToken opts) then
        Inl (getUnauthorizedError ''Missing configuration (config.botToken)'')
      else if \<not> truthy (obj_get queryString ''hub.verify_token'') then
        Inl (getUnauthorizedError ''Missing hub.verify_token in query'')
      else if strict_eq (obj_get queryString ''hub.verify_token'') (opt_value (botToken opts)) then
        Inr (obj_get queryString ''hub.challenge'')
      else
        Inl (getUnauthorizedError ''Wrong hub.verify_token (config.botToken)''))"

text \<open>\<^verbatim>\<open>s.split(c)\<close> for a one-character separator: never empty, \<^verbatim>\<open>''.split('=')\<close> is \<^verbatim>\<open>['']\<close>.\<close>

fun split_on :: "char \<Rightarrow> string \<Rightarrow> string list" where
  "split_on c [] = [[]]"
| "split_on c (x # xs) =
     (if x = c then [] # split_on c xs
      else (case split_on c xs of [] \<Rightarrow> [[x]] | s # ss \<Rightarrow> (x # s) # ss))"

text \<open>\<^verbatim>\<open>xs[i]\<close> on an array: \<^verbatim>\<open>undefined\<close> (here \<open>None\<close>) out of range.\<close>

definition index :: "'a list \<Rightarrow> nat \<Rightarrow> 'a option" where
  "index xs i = (if i < length xs then Some (xs ! i) else None)"

text \<open>
  Line 88 of the source: the signature is read under two spellings of the header name,
  the lower-case one first.
\<close>

definition signature :: "obj \<Rightarrow> json" where
  "signature headers = js_or (obj_get headers ''x-hub-signature'') (obj_get headers ''X-Hub-Signature'')"

text \<open>
  \<^verbatim>\<open>verifyRequest\<close>. The keyed digest \<^verbatim>\<open>crypto.createHmac('sha1', key).update(body).digest('hex')\<close>
  is a function of Node's library and is the parameter \<open>hmac\<close> (key, body, hex digest).
  A signature that is truthy and not a string has no \<^verbatim>\<open>split\<close> method: calling it
  throws a \<^verbatim>\<open>TypeError\<close>. The result \<open>Inr ()\<close> is the resolved promise; an error is
  thrown by the call itself.
\<close>

definition verifyRequest :: "(string \<Rightarrow> string \<Rightarrow> string) \<Rightarrow> options \<Rightarrow> string \<Rightarrow> obj \<Rightarrow> js_error + unit" where
  "verifyRequest hmac opts body headers =
     (case appSecret opts of
        None \<Rightarrow> Inr ()
      | Some secret \<Rightarrow>
          if \<not> is_set (appSecret opts) then Inr ()
          else if \<not> truthy (signature headers) then
            Inl (getUnauthorizedError ''Missing X-Hub-Signature'')
          else (case signature headers of
              JStr s \<Rightarrow>
                (let elements = split_on CHR ''='' s;
                     signatureHash = index elements 1;
                     expectedHash = hmac secret body
                 in if signatureHash \<noteq> Some expectedHash then
                      Inl (getUnauthorizedError ''Couldn't validate the request signature.'')
                    else Inr ())
            | _ \<Rightarrow> Inl TypeError))"

section \<open>Messaging events and their transformation\<close>

text \<open>
  A messaging event is a JavaScript object. The event handed to the processor is either
  the message itself or the value of \<^verbatim>\<open>Request.postBack\<close>.
\<close>

text \<open>
  Modelled from the spec: \<^verbatim>\<open>Request.postBack\<close> belongs to the wingbot package, which is
  not among the sources. The spec describes its result as a synthesized postback event
  with a sender, an action, a payload and a timestamp; \<open>RequestPostBack\<close> holds the
  six arguments of the call in the order of the source (sender, action, data, reference
  action, reference data, timestamp).
\<close>

datatype event =
    Raw obj
  | RequestPostBack json json json json json json

text \<open>
  The sender adapter, built for each message from the options, the sender and the message
  (the logger and the request library are left out).
\<close>

datatype sender_adapter = FacebookSender options json obj

text \<open>The three arguments of one call of \<^verbatim>\<open>processor.processMessage\<close>.\<close>

datatype call = ProcessorCall (call_event: event) (call_pageId: json) (call_sender: sender_adapter)

text \<open>
  What \<^verbatim>\<open>processMessage\<close> does: it returns a promise already resolved with a status
  record, or the promise of a call of the processor, or it throws.
\<close>

datatype pm_result = Resolved json | Dispatched call | Thrown js_error

text \<open>
  \<^verbatim>\<open>processMessage\<close>. The two template literals of lines 136 and 137 are evaluated,
  the payload's first, for every truthy take-thread-control payload and before the
  action is looked at; an error thrown by one of them is thrown by \<^verbatim>\<open>processMessage\<close>.
\<close>

definition processMessage :: "options \<Rightarrow> obj \<Rightarrow> json \<Rightarrow> json \<Rightarrow> pm_result" where
  "processMessage opts message senderId pageId =
     (let messageSender = FacebookSender opts senderId message;
          event =
            (if truthy (obj_get message ''take_thread_control'') then
               (case template_string (js_get (obj_get message ''take_thread_control'') ''previous_owner_app_id'') of
                  Inl e \<Rightarrow> Inl e
                | Inr owner \<Rightarrow>
                    (case template_string (opt_value (appId opts)) of
                       Inl e \<Rightarrow> Inl e
                     | Inr own \<Rightarrow>
                         (let takeToSelf = (owner = own)
                          in if is_set (takeThreadAction opts) \<and> \<not> takeToSelf then
                               Inr (Some (RequestPostBack senderId (opt_value (takeThreadAction opts))
                                       (obj_get message ''take_thread_control'') JNull JNull
                                       (obj_get message ''timestamp'')))
                             else Inr None)))
             else if truthy (obj_get message ''pass_thread_control'') then
               (if is_set (passThreadAction opts) then
                  Inr (Some (RequestPostBack senderId (opt_value (passThreadAction opts))
                          (obj_get message ''pass_thread_control'') JNull JNull
                          (obj_get message ''timestamp'')))
                else Inr None)
             else if truthy (obj_get message ''request_thread_control'') then
               (if is_set (requestThreadAction opts) then
                  Inr (Some (RequestPostBack senderId (opt_value (requestThreadAction opts))
                          (obj_get message ''request_thread_control'') JNull JNull
                          (obj_get message ''timestamp'')))
                else Inr None)
             else Inr (Some (Raw message)))
      in case event of
           Inl e \<Rightarrow> Thrown e
         | Inr None \<Rightarrow> Resolved (JObj [(''status'', JNum ''201'')])
         | Inr (Some e) \<Rightarrow> Dispatched (ProcessorCall e pageId messageSender))"

section \<open>Classification and grouping by sender\<close>

definition PROCESS_EVENTS :: "string list" where
  "PROCESS_EVENTS =
     [''postback'', ''referral'', ''optin'', ''pass_thread_control'', ''message'',
      ''request_thread_control'', ''take_thread_control'', ''read'', ''delivery'']"

text \<open>\<^verbatim>\<open>PROCESS_EVENTS.some(e => typeof message[e] !== 'undefined')\<close>\<close>

definition is_process_event :: "obj \<Rightarrow> bool" where
  "is_process_event message = list_ex (\<lambda>e. obj_get message e \<noteq> JUndefined) PROCESS_EVENTS"

text \<open>\<^verbatim>\<open>(message.sender && message.sender.id) || null\<close>\<close>

definition sender_of :: "obj \<Rightarrow> json" where
  "sender_of message =
     js_or (js_and (obj_get message ''sender'') (js_get (obj_get message ''sender'') ''id'')) JNull"

text \<open>
  The pair \<^verbatim>\<open>{ message, pageId }\<close>, an entry of the body and the body. The input type is
  that of the webhook: a body holds its array of entries, an entry its array
  \<^verbatim>\<open>messaging\<close>, and every element of that array is an object (the source calls
  \<^verbatim>\<open>forEach\<close> on both arrays and reads properties of the message without a test).
\<close>

datatype queued = Queued (q_message: obj) (q_pageId: json)

record entry =
  entry_id :: json
  entry_messaging :: "obj list"

record body =
  body_object :: json
  body_entry :: "entry list"

text \<open>
  The \<^verbatim>\<open>Map\<close> from sender to queue, in insertion order. Its keys are compared by
  SameValueZero: primitives by value; an array or an object is a key by reference, and
  the identifiers of two messages of a parsed body are never the same reference.
\<close>

type_synonym sender_map = "(json \<times> queued list) list"

definition same_value_zero :: "json \<Rightarrow> json \<Rightarrow> bool" where
  "same_value_zero a b = (is_primitive a \<and> a = b)"

text \<open>
  Lines 209 to 213: \<^verbatim>\<open>has\<close>, \<^verbatim>\<open>set\<close> of an empty queue when the key is new, then
  \<^verbatim>\<open>get(...).push(...)\<close>.
\<close>

fun map_push :: "json \<Rightarrow> queued \<Rightarrow> sender_map \<Rightarrow> sender_map" where
  "map_push k q [] = [(k, [q])]"
| "map_push k q ((k', qs) # m) =
     (if same_value_zero k' k then (k', qs @ [q]) # m else (k', qs) # map_push k q m)"

text \<open>The body of the inner \<^verbatim>\<open>forEach\<close>, on the pair of the map and \<^verbatim>\<open>otherEvents\<close>.\<close>

definition route :: "json \<Rightarrow> obj \<Rightarrow> sender_map \<times> queued list \<Rightarrow> sender_map \<times> queued list" where
  "route pageId message st =
     (case st of (eventsBySenderId, otherEvents) \<Rightarrow>
        if is_process_event message then
          (let senderId = sender_of message
           in (map_push senderId (Queued message pageId) eventsBySenderId, otherEvents))
        else (eventsBySenderId, otherEvents @ [Queued message pageId]))"

text \<open>The body of the outer \<^verbatim>\<open>forEach\<close>, and both loops from the empty map and list.\<close>

definition group_entry :: "entry \<Rightarrow> sender_map \<times> queued list \<Rightarrow> sender_map \<times> queued list" where
  "group_entry e st = (let pageId = entry_id e in fold (route pageId) (entry_messaging e) st)"

definition group_events :: "entry list \<Rightarrow> sender_map \<times> queued list" where
  "group_events entries = fold group_entry entries ([], [])"

section \<open>Dispatch: promise chains\<close>

text \<open>
  \<^verbatim>\<open>_processEventsOfSender\<close> builds, for one sender, the chain
  \<^verbatim>\<open>Promise.resolve().then(f1).then(f2)...\<close>, one \<^verbatim>\<open>then\<close> for each queued event, where
  \<^verbatim>\<open>fk\<close> calls \<^verbatim>\<open>processMessage\<close> on the k-th event. Nothing is called while the chain is
  built. Each \<^verbatim>\<open>then\<close> is a promise of its own, a link, in one of four states:
  \<^item> \<open>Waiting\<close>: pending, its callback not called yet;
  \<^item> \<open>InFlight\<close>: its callback has called the processor, whose promise is pending;
  \<^item> \<open>Fulfilled\<close>;
  \<^item> \<open>Rejected\<close> with an error.
\<close>

datatype lstate = Waiting | InFlight | Fulfilled | Rejected js_error

type_synonym link = "queued \<times> lstate"

definition processEventsOfSender :: "json \<times> queued list \<Rightarrow> json \<times> link list" where
  "processEventsOfSender p = (case p of (senderId, events) \<Rightarrow> (senderId, map (\<lambda>q. (q, Waiting)) events))"

text \<open>The promise a link was derived from: \<^verbatim>\<open>Promise.resolve()\<close> for the first link.\<close>

definition parent_state :: "link list \<Rightarrow> nat \<Rightarrow> lstate" where
  "parent_state links k = (if k = 0 then Fulfilled else snd (links ! (k - 1)))"

definition set_state :: "nat \<Rightarrow> lstate \<Rightarrow> link list \<Rightarrow> link list" where
  "set_state k st links = links[k := (fst (links ! k), st)]"

text \<open>
  The reaction of link \<open>k\<close> to its parent, as the promise machinery runs it once the
  parent has settled: after a fulfilled parent the callback runs \<^verbatim>\<open>processMessage\<close>
  (which answers at once, or calls the processor, or throws, and a callback that throws
  rejects its link with the error); after a rejected parent the link is rejected with
  the same error and the callback is not run (\<^verbatim>\<open>then\<close> has no rejection handler). The
  second component is the call of the processor, if one was made.
\<close>

definition react :: "options \<Rightarrow> json \<Rightarrow> nat \<Rightarrow> link list \<Rightarrow> link list \<times> call list" where
  "react opts senderId k links =
     (if k < length links \<and> snd (links ! k) = Waiting then
        (case parent_state links k of
           Fulfilled \<Rightarrow>
             (case processMessage opts (q_message (fst (links ! k))) senderId (q_pageId (fst (links ! k))) of
                Resolved v \<Rightarrow> (set_state k Fulfilled links, [])
              | Dispatched c \<Rightarrow> (set_state k InFlight links, [c])
              | Thrown e \<Rightarrow> (set_state k (Rejected e) links, []))
         | Rejected e \<Rightarrow> (set_state k (Rejected e) links, [])
         | _ \<Rightarrow> (links, []))
      else (links, []))"

text \<open>The promise of the processor settles: with a status record, or with an error.\<close>

datatype outcome = Succeed json | Fail js_error

definition settle :: "nat \<Rightarrow> outcome \<Rightarrow> link list \<Rightarrow> link list \<times> outcome list" where
  "settle k out links =
     (if k < length links \<and> snd (links ! k) = InFlight then
        (set_state k (case out of Succeed v \<Rightarrow> Fulfilled | Fail e \<Rightarrow> Rejected e) links, [out])
      else (links, []))"

section \<open>The gateway as a transition system\<close>

text \<open>
  The state of one call of \<^verbatim>\<open>processEvent\<close>: the chains in the order of the map, the
  list \<^verbatim>\<open>otherEvents\<close>, the settlement of the promise that \<^verbatim>\<open>processEvent\<close> returned
  (\<open>None\<close> while it is pending), and what the processor has seen so far: every call
  made to it and every settlement of one of its promises, tagged with the index of the
  chain.
\<close>

datatype obs = Invoked nat call | Completed nat outcome

record gateway =
  chains :: "(json \<times> link list) list"
  otherEvents :: "queued list"
  returned :: "(js_error + queued list) option"
  trace :: "obs list"

text \<open>The promise of a whole chain is its last link.\<close>

definition final_state :: "link list \<Rightarrow> lstate" where
  "final_state links = (if links = [] then Fulfilled else snd (last links))"

fun first_rejection :: "lstate list \<Rightarrow> js_error option" where
  "first_rejection [] = None"
| "first_rejection (Rejected e # sts) = Some e"
| "first_rejection (st # sts) = first_rejection sts"

text \<open>
  \<^verbatim>\<open>await Promise.all(process)\<close> followed by \<^verbatim>\<open>return otherEvents\<close>: the call is rejected
  as soon as the promise of one chain is rejected, and it is fulfilled with
  \<^verbatim>\<open>otherEvents\<close> once the promises of all chains are fulfilled. A settled call stays as
  it is.
\<close>

definition await_all :: "gateway \<Rightarrow> gateway" where
  "await_all s =
     (if returned s \<noteq> None then s
      else (let finals = map (\<lambda>c. final_state (snd c)) (chains s)
            in case first_rejection finals of
                 Some e \<Rightarrow> s\<lparr>returned := Some (Inl e)\<rparr>
               | None \<Rightarrow>
                   if list_all (\<lambda>st. st = Fulfilled) finals
                   then s\<lparr>returned := Some (Inr (otherEvents s))\<rparr>
                   else s))"

text \<open>
  What can happen next is chosen from outside: the scheduler runs the reaction of a
  link, or the processor settles one of its promises. A step that is not enabled leaves
  the state as it is. The executions of the gateway are the runs over all lists of
  actions, so a statement about every run holds for every speed and every answer of the
  processor.
\<close>

datatype action = React nat nat | Settle nat nat outcome

fun step :: "options \<Rightarrow> action \<Rightarrow> gateway \<Rightarrow> gateway" where
  "step opts (React i k) s =
     (if i < length (chains s) then
        (case react opts (fst (chains s ! i)) k (snd (chains s ! i)) of (links', cs) \<Rightarrow>
           await_all (s\<lparr>chains := (chains s)[i := (fst (chains s ! i), links')],
                        trace := trace s @ map (Invoked i) cs\<rparr>))
      else s)"
| "step opts (Settle i k out) s =
     (if i < length (chains s) then
        (case settle k out (snd (chains s ! i)) of (links', os) \<Rightarrow>
           await_all (s\<lparr>chains := (chains s)[i := (fst (chains s ! i), links')],
                        trace := trace s @ map (Completed i) os\<rparr>))
      else s)"

definition run :: "options \<Rightarrow> action list \<Rightarrow> gateway \<Rightarrow> gateway" where
  "run opts sched s = fold (step opts) sched s"

text \<open>
  \<^verbatim>\<open>processEvent\<close> up to its \<^verbatim>\<open>await\<close>: a body that is not a page resolves with the empty
  list at once; otherwise the events are grouped and one chain is built for each
  sender. The executions of the call are the runs from this state.
\<close>

definition processEvent :: "body \<Rightarrow> gateway" where
  "processEvent b =
     (if body_object b \<noteq> JStr ''page'' then
        \<lparr>chains = [], otherEvents = [], returned = Some (Inr []), trace = []\<rparr>
      else (case group_events (body_entry b) of (eventsBySenderId, others) \<Rightarrow>
        await_all \<lparr>chains = map processEventsOfSender eventsBySenderId,
                   otherEvents = others, returned = None, trace = []\<rparr>))"

section \<open>The specification's reading of the header lookup\<close>

text \<open>
  The specification calls the lookup of the signature header case-insensitive. Following
  its words: the value of the first header whose name equals the wanted name up to the
  case of its letters.
\<close>

definition lower_char :: "char \<Rightarrow> char" where
  "lower_char c =
     (case map_of (zip ''ABCDEFGHIJKLMNOPQRSTUVWXYZ'' ''abcdefghijklmnopqrstuvwxyz'') c of
        None \<Rightarrow> c | Some l \<Rightarrow> l)"

definition lookup_ci :: "obj \<Rightarrow> string \<Rightarrow> json" where
  "lookup_ci headers name =
     (case find (\<lambda>p. map lower_char (fst p) = map lower_char name) headers of
        None \<Rightarrow> JUndefined | Some p \<Rightarrow> snd p)"

section \<open>Notions used in the statements\<close>

subsection \<open>The events of a body\<close>

text \<open>
  The events of a body in the order in which the two loops visit them, each with the
  identifier of its entry; whether an event is a processable one; its sender identity;
  the step of the inner loop on such a pair; and the events queued under a key.
\<close>

definition entry_events :: "entry \<Rightarrow> queued list" where
  "entry_events e = map (\<lambda>m. Queued m (entry_id e)) (entry_messaging e)"

definition all_events :: "entry list \<Rightarrow> queued list" where
  "all_events entries = concat (map entry_events entries)"

definition processable :: "queued \<Rightarrow> bool" where
  "processable q = is_process_event (q_message q)"

definition sender_key :: "queued \<Rightarrow> json" where
  "sender_key q = sender_of (q_message q)"

definition route_q :: "queued \<Rightarrow> sender_map \<times> queued list \<Rightarrow> sender_map \<times> queued list" where
  "route_q q st = route (q_pageId q) (q_message q) st"




subsection \<open>The thread-control rules\<close>

text \<open>
  For a message with a truthy take-thread-control payload: whether the conversion of the
  previous owner to a string throws, and the comparison of line 136 of the source.
\<close>

definition owner_conversion_throws :: "obj \<Rightarrow> bool" where
  "owner_conversion_throws message =
     (truthy (obj_get message ''take_thread_control'')
      \<and> isl (template_string (js_get (obj_get message ''take_thread_control'') ''previous_owner_app_id'')))"

definition take_to_self :: "options \<Rightarrow> obj \<Rightarrow> bool" where
  "take_to_self opts message =
     (template_string (js_get (obj_get message ''take_thread_control'') ''previous_owner_app_id'')
        = template_string (opt_value (appId opts)))"

text \<open>
  The condition under which \<^verbatim>\<open>processMessage\<close> sets the event to \<^verbatim>\<open>null\<close>: the first
  truthy payload among take, pass and request decides, as in the source.
\<close>

definition discards :: "options \<Rightarrow> obj \<Rightarrow> bool" where
  "discards opts message =
     (if truthy (obj_get message ''take_thread_control'') then
        \<not> owner_conversion_throws message
        \<and> (\<not> is_set (takeThreadAction opts) \<or> take_to_self opts message)
      else if truthy (obj_get message ''pass_thread_control'') then \<not> is_set (passThreadAction opts)
      else if truthy (obj_get message ''request_thread_control'') then \<not> is_set (requestThreadAction opts)
      else False)"

text \<open>
  Modelled from the spec: the kind of an event and the rules of the table of its section
  4.3. The kind of an event is the first of the recognized kinds, in the order in which
  the specification lists them, whose payload field is present (section 3), present
  meaning a defined value as in its section 4.2. A take event is discarded when the
  previous owner is the bot's own app or when no take-thread action is configured, a pass
  event and a request event when their action is not configured.
\<close>

definition spec_kinds :: "string list" where
  "spec_kinds = [''message'', ''postback'', ''referral'', ''optin'', ''pass_thread_control'',
                 ''request_thread_control'', ''take_thread_control'', ''read'', ''delivery'']"

definition kind_of :: "obj \<Rightarrow> string option" where
  "kind_of message = find (\<lambda>k. obj_get message k \<noteq> JUndefined) spec_kinds"

definition table_discards :: "options \<Rightarrow> obj \<Rightarrow> bool" where
  "table_discards opts message =
     (if kind_of message = Some ''take_thread_control'' then
        take_to_self opts message \<or> \<not> is_set (takeThreadAction opts)
      else if kind_of message = Some ''pass_thread_control'' then \<not> is_set (passThreadAction opts)
      else if kind_of message = Some ''request_thread_control'' then \<not> is_set (requestThreadAction opts)
      else False)"

text \<open>The message a call of the processor was made for (it is held by the sender adapter).\<close>

fun call_message :: "call \<Rightarrow> obj" where
  "call_message (ProcessorCall e p (FacebookSender opts sid message)) = message"

text \<open>
  The calls \<^verbatim>\<open>processMessage\<close> makes for one queued event, and for a queue in order; and
  the queued event a call was made for.
\<close>

definition dispatches :: "options \<Rightarrow> json \<Rightarrow> queued \<Rightarrow> call list" where
  "dispatches opts sid q =
     (case processMessage opts (q_message q) sid (q_pageId q) of
        Dispatched c \<Rightarrow> [c] | Resolved v \<Rightarrow> [] | Thrown e \<Rightarrow> [])"


definition call_origin :: "call \<Rightarrow> queued" where
  "call_origin c = Queued (call_message c) (call_pageId c)"

subsection \<open>What the processor sees\<close>

text \<open>
  The chain an observation belongs to and the observations of one chain; the calls among
  them; whether calls and settlements alternate, starting from a chain that is busy or
  not, and whether the chain is busy after them; and whether no call follows a failure.
\<close>

fun obs_chain :: "obs \<Rightarrow> nat" where
  "obs_chain (Invoked i c) = i"
| "obs_chain (Completed i out) = i"

definition trace_of :: "nat \<Rightarrow> obs list \<Rightarrow> obs list" where
  "trace_of i tr = filter (\<lambda>x. obs_chain x = i) tr"

fun calls_of :: "obs list \<Rightarrow> call list" where
  "calls_of [] = []"
| "calls_of (Invoked i c # t) = c # calls_of t"
| "calls_of (Completed i out # t) = calls_of t"

fun sequential :: "bool \<Rightarrow> obs list \<Rightarrow> bool" where
  "sequential b [] = True"
| "sequential b (Invoked i c # t) = (\<not> b \<and> sequential True t)"
| "sequential b (Completed i out # t) = (b \<and> sequential False t)"

fun busy_after :: "bool \<Rightarrow> obs list \<Rightarrow> bool" where
  "busy_after b [] = b"
| "busy_after b (Invoked i c # t) = busy_after True t"
| "busy_after b (Completed i out # t) = busy_after False t"

fun is_failure :: "obs \<Rightarrow> bool" where
  "is_failure (Completed i (Fail e)) = True"
| "is_failure _ = False"

fun aborts :: "obs list \<Rightarrow> bool" where
  "aborts [] = True"
| "aborts (x # t) = ((is_failure x \<longrightarrow> calls_of t = []) \<and> aborts t)"

subsection \<open>Invariants of a chain\<close>

text \<open>
  A link is in order with its parent when it is waiting, or was started after a fulfilled
  parent by a call, or was fulfilled after a fulfilled parent without a throw, or was
  rejected after a fulfilled parent or with the error of its rejected parent.
  \<open>invoked\<close> lists the calls that the links started so far have made.
\<close>

fun is_rejected :: "lstate \<Rightarrow> bool" where
  "is_rejected (Rejected e) = True"
| "is_rejected _ = False"

fun local_ok :: "options \<Rightarrow> json \<Rightarrow> lstate \<Rightarrow> queued \<Rightarrow> lstate \<Rightarrow> bool" where
  "local_ok opts sid p q Waiting = True"
| "local_ok opts sid p q InFlight = (p = Fulfilled \<and> dispatches opts sid q \<noteq> [])"
| "local_ok opts sid p q Fulfilled = (p = Fulfilled \<and> \<not> owner_conversion_throws (q_message q))"
| "local_ok opts sid p q (Rejected e) = (p = Fulfilled \<or> p = Rejected e)"

fun wf_links :: "options \<Rightarrow> json \<Rightarrow> lstate \<Rightarrow> link list \<Rightarrow> bool" where
  "wf_links opts sid p [] = True"
| "wf_links opts sid p (l # ls) = (local_ok opts sid p (fst l) (snd l) \<and> wf_links opts sid (snd l) ls)"

fun invoked :: "options \<Rightarrow> json \<Rightarrow> lstate \<Rightarrow> link list \<Rightarrow> call list" where
  "invoked opts sid p [] = []"
| "invoked opts sid p (l # ls) =
     (if p = Fulfilled \<and> snd l \<noteq> Waiting then dispatches opts sid (fst l) else []) @ invoked opts sid (snd l) ls"

definition parent_from :: "lstate \<Rightarrow> link list \<Rightarrow> nat \<Rightarrow> lstate" where
  "parent_from p ls k = (if k = 0 then p else snd (ls ! (k - 1)))"

definition chain_inv :: "options \<Rightarrow> json \<Rightarrow> link list \<Rightarrow> obs list \<Rightarrow> bool" where
  "chain_inv opts sid ls t =
     (wf_links opts sid Fulfilled ls
      \<and> calls_of t = invoked opts sid Fulfilled ls
      \<and> sequential False t
      \<and> (busy_after False t = (\<exists>l \<in> set ls. snd l = InFlight))
      \<and> ((\<exists>x \<in> set t. is_failure x) \<longrightarrow> (\<exists>l \<in> set ls. is_rejected (snd l)))
      \<and> aborts t)"

definition advances :: "link list \<Rightarrow> link list \<Rightarrow> bool" where
  "advances ls ls' =
     (ls' = ls \<or> (\<exists>k st. k < length ls \<and> (snd (ls ! k) = Waiting \<or> snd (ls ! k) = InFlight)
                     \<and> ls' = ls[k := (fst (ls ! k), st)]))"

subsection \<open>Invariants of the gateway\<close>

text \<open>
  The promises of the chains; the queues behind the chains; the relation of the settled
  call to them; the invariant of all reachable states; the state after one chain has
  moved; the chain an action is addressed to; and the bound on the indices in the trace.
\<close>

definition finals :: "gateway \<Rightarrow> lstate list" where
  "finals s = map (\<lambda>c. final_state (snd c)) (chains s)"


definition joined :: "gateway \<Rightarrow> bool" where
  "joined s =
     (case returned s of
        None \<Rightarrow> first_rejection (finals s) = None \<and> \<not> list_all (\<lambda>st. st = Fulfilled) (finals s)
      | Some (Inl e) \<Rightarrow> Rejected e \<in> set (finals s)
      | Some (Inr xs) \<Rightarrow> xs = otherEvents s \<and> list_all (\<lambda>st. st = Fulfilled) (finals s))"

definition sys_inv :: "options \<Rightarrow> gateway \<Rightarrow> bool" where
  "sys_inv opts s =
     ((\<forall>i < length (chains s).
         chain_inv opts (fst (chains s ! i)) (snd (chains s ! i)) (trace_of i (trace s)))
      \<and> joined s)"

definition moved :: "gateway \<Rightarrow> nat \<Rightarrow> link list \<Rightarrow> obs list \<Rightarrow> gateway" where
  "moved s i ls' xs =
     await_all (s\<lparr>chains := (chains s)[i := (fst (chains s ! i), ls')], trace := trace s @ xs\<rparr>)"

fun action_chain :: "action \<Rightarrow> nat" where
  "action_chain (React i k) = i"
| "action_chain (Settle i k out) = i"

definition trace_bounded :: "gateway \<Rightarrow> bool" where
  "trace_bounded s = (\<forall>x \<in> set (trace s). obs_chain x < length (chains s))"

text \<open>
  A run in which every call of the processor succeeds: for each chain in turn and each of
  its links in order, the reaction of the link and then the success of its call (a
  settlement that finds no call in flight changes nothing).
\<close>

definition ok_status :: json where
  "ok_status = JObj [(''status'', JNum ''200'')]"

definition chain_schedule :: "nat \<Rightarrow> nat \<Rightarrow> action list" where
  "chain_schedule i n = concat (map (\<lambda>k. [React i k, Settle i k (Succeed ok_status)]) [0..<n])"

definition complete_schedule :: "gateway \<Rightarrow> action list" where
  "complete_schedule s =
     concat (map (\<lambda>i. chain_schedule i (length (snd (chains s ! i)))) [0..<length (chains s)])"


text \<open>The page body that holds one event, and the one that holds two in one entry.\<close>

definition single_event :: "json \<Rightarrow> obj \<Rightarrow> body" where
  "single_event pid m =
     \<lparr>body_object = JStr ''page'', body_entry = [\<lparr>entry_id = pid, entry_messaging = [m]\<rparr>]\<rparr>"

definition two_events :: "json \<Rightarrow> obj \<Rightarrow> obj \<Rightarrow> body" where
  "two_events pid m m' =
     \<lparr>body_object = JStr ''page'', body_entry = [\<lparr>entry_id = pid, entry_messaging = [m, m']\<rparr>]\<rparr>"

section \<open>Inputs for the examples\<close>

definition example_options :: options where
  "example_options = \<lparr>pageToken = Some ''pt'', appId = Some ''123'', botToken = Some ''tok'',
     appSecret = Some ''sec'', passThreadAction = None, takeThreadAction = Some ''take'',
     requestThreadAction = None\<rparr>"

text \<open>The same configuration with no thread-control action.\<close>

definition plain_options :: options where
  "plain_options = \<lparr>pageToken = Some ''pt'', appId = Some ''123'', botToken = Some ''tok'',
     appSecret = Some ''sec'', passThreadAction = None, takeThreadAction = None,
     requestThreadAction = None\<rparr>"

definition msg_a1 :: obj where
  "msg_a1 = [(''sender'', JObj [(''id'', JStr ''a'')]), (''timestamp'', JNum ''1''), (''message'', JStr ''hi'')]"

definition msg_b1 :: obj where
  "msg_b1 = [(''sender'', JObj [(''id'', JStr ''b'')]), (''timestamp'', JNum ''2''), (''message'', JStr ''yo'')]"

definition msg_a2 :: obj where
  "msg_a2 = [(''sender'', JObj [(''id'', JStr ''a'')]), (''timestamp'', JNum ''3''), (''read'', JNum ''1'')]"

definition msg_x :: obj where
  "msg_x = [(''sender'', JObj [(''id'', JStr ''a'')]), (''timestamp'', JNum ''4''), (''account_linking'', JNull)]"

definition msg_take_self :: obj where
  "msg_take_self = [(''sender'', JObj [(''id'', JStr ''a'')]), (''timestamp'', JNum ''5''),
     (''take_thread_control'', JObj [(''previous_owner_app_id'', JNum ''123''), (''metadata'', JStr ''x'')])]"

definition msg_take_other :: obj where
  "msg_take_other = [(''sender'', JObj [(''id'', JStr ''a'')]), (''timestamp'', JNum ''6''),
     (''take_thread_control'', JObj [(''previous_owner_app_id'', JStr ''456''), (''metadata'', JStr ''x'')])]"

definition msg_pass :: obj where
  "msg_pass = [(''sender'', JObj [(''id'', JStr ''a'')]), (''timestamp'', JNum ''7''),
     (''pass_thread_control'', JObj [(''new_owner_app_id'', JStr ''123'')])]"

text \<open>
  A take event whose previous owner is an object with a property \<^verbatim>\<open>toString\<close> of its
  own; a pass event whose payload is \<^verbatim>\<open>null\<close>; a pass event that also carries a take
  payload; and two events whose sender identifier is the array \<^verbatim>\<open>[1]\<close>.
\<close>

definition msg_take_odd :: obj where
  "msg_take_odd = [(''sender'', JObj [(''id'', JStr ''a'')]), (''timestamp'', JNum ''8''),
     (''take_thread_control'', JObj [(''previous_owner_app_id'', JObj [(''toString'', JNum ''1'')])])]"

definition msg_pass_null :: obj where
  "msg_pass_null = [(''sender'', JObj [(''id'', JStr ''a'')]), (''timestamp'', JNum ''9''),
     (''pass_thread_control'', JNull)]"

definition msg_take_and_pass :: obj where
  "msg_take_and_pass = [(''sender'', JObj [(''id'', JStr ''a'')]), (''timestamp'', JNum ''10''),
     (''pass_thread_control'', JObj [(''new_owner_app_id'', JStr ''123'')]),
     (''take_thread_control'', JObj [(''previous_owner_app_id'', JStr ''456'')])]"



text \<open>
  A page body with two entries: two events of sender \<open>a\<close>, one of sender \<open>b\<close>, and one
  event of no recognized kind.
\<close>

definition example_body :: body where
  "example_body = \<lparr>body_object = JStr ''page'',
     body_entry = [\<lparr>entry_id = JStr ''p1'', entry_messaging = [msg_a1, msg_b1]\<rparr>,
                   \<lparr>entry_id = JStr ''p2'', entry_messaging = [msg_x, msg_a2]\<rparr>]\<rparr>"

text \<open>
  A run in which the processor fails on the first event of \<open>a\<close> while the event of \<open>b\<close>
  is still being processed, and a run in which every call succeeds.
\<close>

definition failing_schedule :: "action list" where
  "failing_schedule =
     [React 0 0, React 1 0, Settle 0 0 (Fail (ProcessorError ''boom'')), React 0 1]"

definition success_schedule :: "action list" where
  "success_schedule =
     [React 0 0, React 1 0, Settle 1 0 (Succeed JNull), Settle 0 0 (Succeed JNull), React 0 1,
      Settle 0 1 (Succeed JNull)]"

section \<open>Lemmas\<close>

subsection \<open>The outcomes of processMessage\<close>

lemma template_string_option: "template_string (opt_value x) = Inr (case x of None \<Rightarrow> ''undefined'' | Some s \<Rightarrow> s)"
  by (simp add: opt_value_def split: option.splits)

lemma take_to_self_converts: "take_to_self opts m \<Longrightarrow> truthy (obj_get m ''take_thread_control'') \<Longrightarrow> \<not> owner_conversion_throws m"
  by (simp add: take_to_self_def owner_conversion_throws_def template_string_option)

lemma processMessage_throws:
  "owner_conversion_throws m \<Longrightarrow> \<exists>e. processMessage opts m sid pid = Thrown e"
  by (auto simp: processMessage_def owner_conversion_throws_def isl_def)

lemma processMessage_Thrown: "processMessage opts m sid pid = Thrown e \<Longrightarrow> owner_conversion_throws m"
  by (auto simp: processMessage_def owner_conversion_throws_def template_string_option Let_def
      split: if_splits sum.splits)

lemma processMessage_discards:
  "discards opts m \<Longrightarrow> processMessage opts m sid pid = Resolved (JObj [(''status'', JNum ''201'')])"
  by (auto simp: processMessage_def discards_def take_to_self_def owner_conversion_throws_def
      template_string_option Let_def split: if_splits sum.splits)

lemma processMessage_Resolved:
  "processMessage opts m sid pid = Resolved v \<Longrightarrow> discards opts m \<and> v = JObj [(''status'', JNum ''201'')]"
  by (auto simp: processMessage_def discards_def take_to_self_def owner_conversion_throws_def
      template_string_option Let_def split: if_splits sum.splits)

lemma processMessage_Dispatched:
  "processMessage opts m sid pid = Dispatched c \<Longrightarrow>
     call_message c = m \<and> call_pageId c = pid \<and> call_sender c = FacebookSender opts sid m"
  by (auto simp: processMessage_def Let_def split: if_splits sum.splits)

lemma processMessage_forwards:
  assumes "\<not> discards opts m" "\<not> owner_conversion_throws m"
  shows "\<exists>c. processMessage opts m sid pid = Dispatched c"
proof (cases "processMessage opts m sid pid")
  case (Resolved v)
  with assms(1) show ?thesis using processMessage_Resolved by blast
next
  case (Dispatched c)
  then show ?thesis by simp
next
  case (Thrown e)
  with assms(2) show ?thesis using processMessage_Thrown by blast
qed

lemma dispatches_Nil: "(dispatches opts sid q = []) = (discards opts (q_message q) \<or> owner_conversion_throws (q_message q))"
proof (cases "processMessage opts (q_message q) sid (q_pageId q)")
  case (Resolved v)
  then show ?thesis using processMessage_Resolved [OF Resolved] by (simp add: dispatches_def)
next
  case (Dispatched c)
  have "\<not> discards opts (q_message q)"
    using processMessage_discards [of opts "q_message q" sid "q_pageId q"] Dispatched by auto
  moreover have "\<not> owner_conversion_throws (q_message q)"
    using processMessage_throws [of "q_message q" opts sid "q_pageId q"] Dispatched by auto
  ultimately show ?thesis using Dispatched by (simp add: dispatches_def)
next
  case (Thrown e)
  then show ?thesis using processMessage_Thrown [OF Thrown] by (simp add: dispatches_def)
qed

lemma dispatches_origin:
  assumes "c \<in> set (dispatches opts sid q)"
  shows "call_origin c = q"
proof -
  from assms have "processMessage opts (q_message q) sid (q_pageId q) = Dispatched c"
    by (auto simp: dispatches_def split: pm_result.splits)
  then have "call_message c = q_message q" "call_pageId c = q_pageId q"
    using processMessage_Dispatched by blast+
  then show ?thesis by (cases q) (simp add: call_origin_def)
qed


subsection \<open>Grouping\<close>

lemma group_entry_route_q: "group_entry e st = fold route_q (entry_events e) st"
proof -
  have "(\<lambda>x. route_q (Queued x (entry_id e))) = route (entry_id e)"
    by (simp add: fun_eq_iff route_q_def)
  then show ?thesis
    by (simp add: group_entry_def entry_events_def fold_map comp_def)
qed

lemma fold_group_entry: "fold group_entry es st = fold route_q (all_events es) st"
  by (induction es arbitrary: st) (simp_all add: all_events_def group_entry_route_q)

lemma group_events_route_q: "group_events es = fold route_q (all_events es) ([], [])"
  by (simp add: group_events_def fold_group_entry)

lemma route_q_simps:
  "route_q q (m, os) = (if processable q then (map_push (sender_key q) q m, os) else (m, os @ [q]))"
  by (cases q) (simp add: route_q_def route_def processable_def sender_key_def)

lemma snd_fold_route_q:
  "snd (fold route_q qs (m, os)) = os @ filter (\<lambda>q. \<not> processable q) qs"
  by (induction qs arbitrary: m os) (simp_all add: route_q_simps)














subsection \<open>Well-formed chains\<close>

lemma parent_from_0 [simp]: "parent_from p ls 0 = p"
  by (simp add: parent_from_def)

lemma parent_from_Suc [simp]: "parent_from p (l # ls) (Suc k) = parent_from (snd l) ls k"
  by (cases k) (simp_all add: parent_from_def)

lemma parent_state_from: "parent_state ls k = parent_from Fulfilled ls k"
  by (simp add: parent_state_def parent_from_def)

lemma wf_all_waiting: "\<forall>l \<in> set ls. snd l = Waiting \<Longrightarrow> wf_links opts sid p ls"
  by (induction ls arbitrary: p) simp_all

lemma invoked_all_waiting: "\<forall>l \<in> set ls. snd l = Waiting \<Longrightarrow> invoked opts sid p ls = []"
  by (induction ls arbitrary: p) simp_all

lemma wf_after_pending:
  "wf_links opts sid p ls \<Longrightarrow> p = Waiting \<or> p = InFlight \<Longrightarrow> \<forall>l \<in> set ls. snd l = Waiting"
proof (induction ls arbitrary: p)
  case Nil
  then show ?case by simp
next
  case (Cons l ls)
  from Cons.prems have w: "snd l = Waiting"
    by (cases "snd l") auto
  with Cons.prems Cons.IH [of "snd l"] show ?case by simp
qed

lemma wf_after_unfulfilled:
  "wf_links opts sid p ls \<Longrightarrow> p \<noteq> Fulfilled \<Longrightarrow>
     \<forall>l \<in> set ls. snd l \<noteq> InFlight \<and> snd l \<noteq> Fulfilled"
proof (induction ls arbitrary: p)
  case Nil
  then show ?case by simp
next
  case (Cons l ls)
  from Cons.prems have w: "snd l \<noteq> InFlight \<and> snd l \<noteq> Fulfilled"
    by (cases "snd l") auto
  with Cons.prems Cons.IH [of "snd l"] show ?case by simp
qed



lemma wf_update:
  "wf_links opts sid p ls \<Longrightarrow> k < length ls \<Longrightarrow>
   snd (ls ! k) = Waiting \<or> snd (ls ! k) = InFlight \<Longrightarrow>
   local_ok opts sid (parent_from p ls k) (fst (ls ! k)) st \<Longrightarrow>
   wf_links opts sid p (ls[k := (fst (ls ! k), st)])"
proof (induction ls arbitrary: p k)
  case Nil
  then show ?case by simp
next
  case (Cons l ls)
  from Cons.prems(1) have wl: "local_ok opts sid p (fst l) (snd l)" and wr: "wf_links opts sid (snd l) ls"
    by simp_all
  show ?case
  proof (cases k)
    case 0
    with Cons.prems(3) have "snd l = Waiting \<or> snd l = InFlight" by simp
    with wr have "\<forall>x \<in> set ls. snd x = Waiting" by (rule wf_after_pending)
    then have "wf_links opts sid st ls" by (rule wf_all_waiting)
    moreover from 0 Cons.prems(4) have "local_ok opts sid p (fst l) st" by simp
    ultimately show ?thesis using 0 by simp
  next
    case (Suc j)
    from Suc Cons.prems(2) have 1: "j < length ls" by simp
    from Suc Cons.prems(3) have 2: "snd (ls ! j) = Waiting \<or> snd (ls ! j) = InFlight" by simp
    from Suc Cons.prems(4) have 3: "local_ok opts sid (parent_from (snd l) ls j) (fst (ls ! j)) st" by simp
    have "wf_links opts sid (snd l) (ls[j := (fst (ls ! j), st)])"
      by (rule Cons.IH [OF wr 1 2 3])
    with wl Suc show ?thesis by simp
  qed
qed

text \<open>A link whose reaction can call the processor: nothing is in flight or rejected.\<close>

lemma wf_ready:
  "wf_links opts sid p ls \<Longrightarrow> k < length ls \<Longrightarrow> snd (ls ! k) = Waiting \<Longrightarrow>
   parent_from p ls k = Fulfilled \<Longrightarrow>
   \<forall>l \<in> set ls. snd l = Fulfilled \<or> snd l = Waiting"
proof (induction ls arbitrary: p k)
  case Nil
  then show ?case by simp
next
  case (Cons l ls)
  from Cons.prems(1) have wl: "local_ok opts sid p (fst l) (snd l)" and wr: "wf_links opts sid (snd l) ls"
    by simp_all
  show ?case
  proof (cases k)
    case 0
    with Cons.prems(3) have w: "snd l = Waiting" by simp
    then have "snd l = Waiting \<or> snd l = InFlight" by simp
    with wr have "\<forall>x \<in> set ls. snd x = Waiting" by (rule wf_after_pending)
    with w show ?thesis by simp
  next
    case (Suc j)
    from Suc Cons.prems(2) have 1: "j < length ls" by simp
    from Suc Cons.prems(3) have 2: "snd (ls ! j) = Waiting" by simp
    from Suc Cons.prems(4) have 3: "parent_from (snd l) ls j = Fulfilled" by simp
    have f: "snd l = Fulfilled"
    proof (rule ccontr)
      assume nf: "snd l \<noteq> Fulfilled"
      with wr have dead: "\<forall>x \<in> set ls. snd x \<noteq> InFlight \<and> snd x \<noteq> Fulfilled"
        by (rule wf_after_unfulfilled)
      show False
      proof (cases j)
        case 0
        with 3 nf show False by simp
      next
        case (Suc i)
        with 3 have "snd (ls ! i) = Fulfilled" by (simp add: parent_from_def)
        moreover from Suc 1 have "ls ! i \<in> set ls" by simp
        ultimately show False using dead by blast
      qed
    qed
    have "\<forall>x \<in> set ls. snd x = Fulfilled \<or> snd x = Waiting"
      by (rule Cons.IH [OF wr 1 2 3])
    with f show ?thesis by simp
  qed
qed

lemma invoked_start:
  "wf_links opts sid p ls \<Longrightarrow> k < length ls \<Longrightarrow> snd (ls ! k) = Waiting \<Longrightarrow>
   parent_from p ls k = Fulfilled \<Longrightarrow> st \<noteq> Waiting \<Longrightarrow>
   invoked opts sid p (ls[k := (fst (ls ! k), st)]) = invoked opts sid p ls @ dispatches opts sid (fst (ls ! k))"
proof (induction ls arbitrary: p k)
  case Nil
  then show ?case by simp
next
  case (Cons l ls)
  from Cons.prems(1) have wr: "wf_links opts sid (snd l) ls" by simp
  show ?case
  proof (cases k)
    case 0
    with Cons.prems(3) have w: "snd l = Waiting" by simp
    then have "snd l = Waiting \<or> snd l = InFlight" by simp
    with wr have aw: "\<forall>x \<in> set ls. snd x = Waiting" by (rule wf_after_pending)
    have "invoked opts sid st ls = []" "invoked opts sid (snd l) ls = []"
      using aw by (simp_all add: invoked_all_waiting)
    with 0 w Cons.prems(4,5) show ?thesis by simp
  next
    case (Suc j)
    from Suc Cons.prems(2) have 1: "j < length ls" by simp
    from Suc Cons.prems(3) have 2: "snd (ls ! j) = Waiting" by simp
    from Suc Cons.prems(4) have 3: "parent_from (snd l) ls j = Fulfilled" by simp
    have "invoked opts sid (snd l) (ls[j := (fst (ls ! j), st)]) =
            invoked opts sid (snd l) ls @ dispatches opts sid (fst (ls ! j))"
      by (rule Cons.IH [OF wr 1 2 3 Cons.prems(5)])
    with Suc show ?thesis by simp
  qed
qed

lemma invoked_settle:
  "wf_links opts sid p ls \<Longrightarrow> k < length ls \<Longrightarrow> snd (ls ! k) = InFlight \<Longrightarrow> st \<noteq> Waiting \<Longrightarrow>
   invoked opts sid p (ls[k := (fst (ls ! k), st)]) = invoked opts sid p ls"
proof (induction ls arbitrary: p k)
  case Nil
  then show ?case by simp
next
  case (Cons l ls)
  from Cons.prems(1) have wr: "wf_links opts sid (snd l) ls" by simp
  show ?case
  proof (cases k)
    case 0
    with Cons.prems(3) have w: "snd l = InFlight" by simp
    then have "snd l = Waiting \<or> snd l = InFlight" by simp
    with wr have aw: "\<forall>x \<in> set ls. snd x = Waiting" by (rule wf_after_pending)
    have "invoked opts sid st ls = []" "invoked opts sid (snd l) ls = []"
      using aw by (simp_all add: invoked_all_waiting)
    with 0 w Cons.prems(4) show ?thesis by simp
  next
    case (Suc j)
    from Suc Cons.prems(2) have 1: "j < length ls" by simp
    from Suc Cons.prems(3) have 2: "snd (ls ! j) = InFlight" by simp
    have "invoked opts sid (snd l) (ls[j := (fst (ls ! j), st)]) = invoked opts sid (snd l) ls"
      by (rule Cons.IH [OF wr 1 2 Cons.prems(4)])
    with Suc show ?thesis by simp
  qed
qed

lemma invoked_propagate:
  "wf_links opts sid p ls \<Longrightarrow> k < length ls \<Longrightarrow> snd (ls ! k) = Waiting \<Longrightarrow>
   parent_from p ls k \<noteq> Fulfilled \<Longrightarrow>
   invoked opts sid p (ls[k := (fst (ls ! k), st)]) = invoked opts sid p ls"
proof (induction ls arbitrary: p k)
  case Nil
  then show ?case by simp
next
  case (Cons l ls)
  from Cons.prems(1) have wr: "wf_links opts sid (snd l) ls" by simp
  show ?case
  proof (cases k)
    case 0
    with Cons.prems(3) have w: "snd l = Waiting" by simp
    then have "snd l = Waiting \<or> snd l = InFlight" by simp
    with wr have aw: "\<forall>x \<in> set ls. snd x = Waiting" by (rule wf_after_pending)
    have "invoked opts sid st ls = []" "invoked opts sid (snd l) ls = []"
      using aw by (simp_all add: invoked_all_waiting)
    with 0 w Cons.prems(4) show ?thesis by simp
  next
    case (Suc j)
    from Suc Cons.prems(2) have 1: "j < length ls" by simp
    from Suc Cons.prems(3) have 2: "snd (ls ! j) = Waiting" by simp
    from Suc Cons.prems(4) have 3: "parent_from (snd l) ls j \<noteq> Fulfilled" by simp
    have "invoked opts sid (snd l) (ls[j := (fst (ls ! j), st)]) = invoked opts sid (snd l) ls"
      by (rule Cons.IH [OF wr 1 2 3])
    with Suc show ?thesis by simp
  qed
qed

lemma none_in_flight_after_settle:
  "wf_links opts sid p ls \<Longrightarrow> k < length ls \<Longrightarrow> snd (ls ! k) = InFlight \<Longrightarrow> st \<noteq> InFlight \<Longrightarrow>
   \<forall>l \<in> set (ls[k := (q, st)]). snd l \<noteq> InFlight"
proof (induction ls arbitrary: p k)
  case Nil
  then show ?case by simp
next
  case (Cons l ls)
  from Cons.prems(1) have wr: "wf_links opts sid (snd l) ls" by simp
  show ?case
  proof (cases k)
    case 0
    with Cons.prems(3) have "snd l = Waiting \<or> snd l = InFlight" by simp
    with wr have aw: "\<forall>x \<in> set ls. snd x = Waiting" by (rule wf_after_pending)
    with 0 Cons.prems(4) show ?thesis by simp
  next
    case (Suc j)
    from Suc Cons.prems(2) have 1: "j < length ls" by simp
    from Suc Cons.prems(3) have 2: "snd (ls ! j) = InFlight" by simp
    have nl: "snd l \<noteq> InFlight"
    proof
      assume "snd l = InFlight"
      then have "snd l = Waiting \<or> snd l = InFlight" by simp
      with wr have "\<forall>x \<in> set ls. snd x = Waiting" by (rule wf_after_pending)
      moreover from 1 have "ls ! j \<in> set ls" by simp
      ultimately show False using 2 by auto
    qed
    have "\<forall>x \<in> set (ls[j := (q, st)]). snd x \<noteq> InFlight"
      by (rule Cons.IH [OF wr 1 2 Cons.prems(4)])
    with nl Suc show ?thesis by simp
  qed
qed

lemma set_update_keeps:
  "x \<in> set ls \<Longrightarrow> k < length ls \<Longrightarrow> x \<noteq> ls ! k \<Longrightarrow> x \<in> set (ls[k := y])"
proof (induction ls arbitrary: k)
  case Nil
  then show ?case by simp
next
  case (Cons a ls)
  then show ?case by (cases k) auto
qed

lemma set_update_cases:
  "x \<in> set (ls[k := y]) \<Longrightarrow> x = y \<or> x \<in> set ls"
  using set_update_subset_insert [of ls k y] by auto

subsection \<open>Observations\<close>

lemma calls_of_append: "calls_of (t @ u) = calls_of t @ calls_of u"
  by (induction t rule: calls_of.induct) simp_all

lemma sequential_append: "sequential b (t @ u) = (sequential b t \<and> sequential (busy_after b t) u)"
  by (induction b t rule: sequential.induct) simp_all

lemma busy_after_append: "busy_after b (t @ u) = busy_after (busy_after b t) u"
  by (induction b t rule: busy_after.induct) simp_all

lemma aborts_append:
  "aborts (t @ u) = (aborts t \<and> aborts u \<and> ((\<exists>x \<in> set t. is_failure x) \<longrightarrow> calls_of u = []))"
  by (induction t) (auto simp: calls_of_append)

lemma wf_local:
  "wf_links opts sid p ls \<Longrightarrow> k < length ls \<Longrightarrow>
   local_ok opts sid (parent_from p ls k) (fst (ls ! k)) (snd (ls ! k))"
proof (induction ls arbitrary: p k)
  case Nil
  then show ?case by simp
next
  case (Cons l ls)
  show ?case
  proof (cases k)
    case 0
    with Cons.prems show ?thesis by simp
  next
    case (Suc j)
    from Cons.prems(1) have wr: "wf_links opts sid (snd l) ls" by simp
    from Suc Cons.prems(2) have 1: "j < length ls" by simp
    from Cons.IH [OF wr 1] Suc show ?thesis by simp
  qed
qed

lemma in_flight_update_other:
  assumes "k < length ls" "snd (ls ! k) \<noteq> InFlight" "st \<noteq> InFlight"
  shows "(\<exists>l \<in> set (ls[k := (q, st)]). snd l = InFlight) = (\<exists>l \<in> set ls. snd l = InFlight)"
proof
  assume "\<exists>l \<in> set (ls[k := (q, st)]). snd l = InFlight"
  then obtain l where l: "l \<in> set (ls[k := (q, st)])" "snd l = InFlight" by blast
  from l(1) have "l = (q, st) \<or> l \<in> set ls" by (rule set_update_cases)
  with l(2) assms(3) show "\<exists>l \<in> set ls. snd l = InFlight" by auto
next
  assume "\<exists>l \<in> set ls. snd l = InFlight"
  then obtain l where l: "l \<in> set ls" "snd l = InFlight" by blast
  with assms(2) have "l \<noteq> ls ! k" by auto
  with l(1) assms(1) have "l \<in> set (ls[k := (q, st)])" by (rule set_update_keeps)
  with l(2) show "\<exists>l \<in> set (ls[k := (q, st)]). snd l = InFlight" by blast
qed

lemma rejected_update_other:
  assumes "k < length ls" "\<not> is_rejected (snd (ls ! k))" "\<exists>l \<in> set ls. is_rejected (snd l)"
  shows "\<exists>l \<in> set (ls[k := y]). is_rejected (snd l)"
proof -
  from assms(3) obtain l where l: "l \<in> set ls" "is_rejected (snd l)" by blast
  with assms(2) have "l \<noteq> ls ! k" by auto
  with l(1) assms(1) have "l \<in> set (ls[k := y])" by (rule set_update_keeps)
  with l(2) show ?thesis by blast
qed

subsection \<open>Reactions and settlements keep the invariant of a chain\<close>

lemma chain_inv_React:
  assumes inv: "chain_inv opts sid ls t" and r: "react opts sid k ls = (ls', cs)"
  shows "chain_inv opts sid ls' (t @ map (Invoked i) cs)"
proof (cases "k < length ls \<and> snd (ls ! k) = Waiting")
  case False
  with r have "ls' = ls" "cs = []" by (auto simp: react_def)
  with inv show ?thesis by simp
next
  case True
  then have k: "k < length ls" and w: "snd (ls ! k) = Waiting" by simp_all
  from inv have wf: "wf_links opts sid Fulfilled ls"
    and calls: "calls_of t = invoked opts sid Fulfilled ls"
    and seq: "sequential False t"
    and busy: "busy_after False t = (\<exists>l \<in> set ls. snd l = InFlight)"
    and failed: "(\<exists>x \<in> set t. is_failure x) \<longrightarrow> (\<exists>l \<in> set ls. is_rejected (snd l))"
    and ab: "aborts t"
    by (simp_all add: chain_inv_def)
  have kin: "y \<in> set (ls[k := y])" for y :: link
    using k by (rule set_update_memI)
  show ?thesis
  proof (cases "parent_from Fulfilled ls k")
    case Waiting
    with r True have "ls' = ls" "cs = []" by (auto simp: react_def parent_state_from)
    with inv show ?thesis by simp
  next
    case InFlight
    with r True have "ls' = ls" "cs = []" by (auto simp: react_def parent_state_from)
    with inv show ?thesis by simp
  next
    case (Rejected e)
    with r True have ls': "ls' = ls[k := (fst (ls ! k), Rejected e)]" and cs: "cs = []"
      by (auto simp: react_def parent_state_from set_state_def)
    have "local_ok opts sid (parent_from Fulfilled ls k) (fst (ls ! k)) (Rejected e)"
      using Rejected by simp
    with wf k w have 1: "wf_links opts sid Fulfilled ls'"
      unfolding ls' by (intro wf_update) simp_all
    have 2: "invoked opts sid Fulfilled ls' = invoked opts sid Fulfilled ls"
      unfolding ls' using wf k w Rejected by (intro invoked_propagate) simp_all
    have 3: "(\<exists>l \<in> set ls'. snd l = InFlight) = (\<exists>l \<in> set ls. snd l = InFlight)"
      unfolding ls' using k w by (intro in_flight_update_other) simp_all
    have 4: "\<exists>l \<in> set ls'. is_rejected (snd l)"
      unfolding ls' by (rule bexI [OF _ kin]) simp
    from 1 2 3 4 calls seq busy ab cs show ?thesis
      by (simp add: chain_inv_def)
  next
    case Fulfilled
    from wf k w Fulfilled have ready: "\<forall>l \<in> set ls. snd l = Fulfilled \<or> snd l = Waiting"
      by (rule wf_ready)
    then have nobusy: "\<not> (\<exists>l \<in> set ls. snd l = InFlight)" by auto
    from ready have "\<not> (\<exists>l \<in> set ls. is_rejected (snd l))" by auto
    with failed have nofail: "\<not> (\<exists>x \<in> set t. is_failure x)" by blast
    show ?thesis
    proof (cases "processMessage opts (q_message (fst (ls ! k))) sid (q_pageId (fst (ls ! k)))")
      case (Resolved v)
      with r True Fulfilled have ls': "ls' = ls[k := (fst (ls ! k), lstate.Fulfilled)]" and cs: "cs = []"
        by (auto simp: react_def parent_state_from set_state_def)
      from Resolved have d: "dispatches opts sid (fst (ls ! k)) = []"
        by (simp add: dispatches_def)
      have "local_ok opts sid (parent_from lstate.Fulfilled ls k) (fst (ls ! k)) lstate.Fulfilled"
        using Fulfilled processMessage_throws [of "q_message (fst (ls ! k))" opts sid "q_pageId (fst (ls ! k))"]
          Resolved by auto
      with wf k w have 1: "wf_links opts sid lstate.Fulfilled ls'"
        unfolding ls' by (intro wf_update) simp_all
      have 2: "invoked opts sid lstate.Fulfilled ls' = invoked opts sid lstate.Fulfilled ls"
        unfolding ls' using invoked_start [OF wf k w Fulfilled, of lstate.Fulfilled] d by simp
      have 3: "(\<exists>l \<in> set ls'. snd l = InFlight) = (\<exists>l \<in> set ls. snd l = InFlight)"
        unfolding ls' using k w by (intro in_flight_update_other) simp_all
      from 1 2 3 calls seq busy ab cs nofail show ?thesis
        by (simp add: chain_inv_def)
    next
      case (Dispatched c)
      with r True Fulfilled have ls': "ls' = ls[k := (fst (ls ! k), InFlight)]" and cs: "cs = [c]"
        by (auto simp: react_def parent_state_from set_state_def)
      from Dispatched have d: "dispatches opts sid (fst (ls ! k)) = [c]"
        by (simp add: dispatches_def)
      have "local_ok opts sid (parent_from lstate.Fulfilled ls k) (fst (ls ! k)) InFlight"
        using Fulfilled d by simp
      with wf k w have 1: "wf_links opts sid lstate.Fulfilled ls'"
        unfolding ls' by (intro wf_update) simp_all
      have 2: "invoked opts sid lstate.Fulfilled ls' = invoked opts sid lstate.Fulfilled ls @ [c]"
        unfolding ls' using invoked_start [OF wf k w Fulfilled, of InFlight] d by simp
      have 3: "\<exists>l \<in> set ls'. snd l = InFlight"
        unfolding ls' by (rule bexI [OF _ kin]) simp
      from busy nobusy have nb: "\<not> busy_after False t" by simp
      from 1 2 3 calls seq nb ab cs nofail show ?thesis
        by (simp add: chain_inv_def calls_of_append sequential_append busy_after_append aborts_append)
    next
      case (Thrown e)
      with r True Fulfilled have ls': "ls' = ls[k := (fst (ls ! k), Rejected e)]" and cs: "cs = []"
        by (auto simp: react_def parent_state_from set_state_def)
      from Thrown have d: "dispatches opts sid (fst (ls ! k)) = []"
        by (simp add: dispatches_def)
      have "local_ok opts sid (parent_from lstate.Fulfilled ls k) (fst (ls ! k)) (Rejected e)"
        using Fulfilled by simp
      with wf k w have 1: "wf_links opts sid lstate.Fulfilled ls'"
        unfolding ls' by (intro wf_update) simp_all
      have 2: "invoked opts sid lstate.Fulfilled ls' = invoked opts sid lstate.Fulfilled ls"
        unfolding ls' using invoked_start [OF wf k w Fulfilled, of "Rejected e"] d by simp
      have 3: "(\<exists>l \<in> set ls'. snd l = InFlight) = (\<exists>l \<in> set ls. snd l = InFlight)"
        unfolding ls' using k w by (intro in_flight_update_other) simp_all
      from 1 2 3 calls seq busy ab cs nofail show ?thesis
        by (simp add: chain_inv_def)
    qed
  qed
qed

lemma chain_inv_Settle:
  assumes inv: "chain_inv opts sid ls t" and r: "settle k out ls = (ls', os)"
  shows "chain_inv opts sid ls' (t @ map (Completed i) os)"
proof (cases "k < length ls \<and> snd (ls ! k) = InFlight")
  case False
  with r have "ls' = ls" "os = []" by (auto simp: settle_def)
  with inv show ?thesis by simp
next
  case True
  then have k: "k < length ls" and w: "snd (ls ! k) = InFlight" by simp_all
  from inv have wf: "wf_links opts sid Fulfilled ls"
    and calls: "calls_of t = invoked opts sid Fulfilled ls"
    and seq: "sequential False t"
    and busy: "busy_after False t = (\<exists>l \<in> set ls. snd l = InFlight)"
    and failed: "(\<exists>x \<in> set t. is_failure x) \<longrightarrow> (\<exists>l \<in> set ls. is_rejected (snd l))"
    and ab: "aborts t"
    by (simp_all add: chain_inv_def)
  define st where "st = (case out of Succeed v \<Rightarrow> Fulfilled | Fail e \<Rightarrow> Rejected e)"
  from r True have ls': "ls' = ls[k := (fst (ls ! k), st)]" and os: "os = [out]"
    by (auto simp: settle_def set_state_def st_def)
  have st_cases: "st = Fulfilled \<or> (\<exists>e. st = Rejected e)"
    by (cases out) (simp_all add: st_def)
  have kin: "y \<in> set (ls[k := y])" for y :: link
    using k by (rule set_update_memI)
  from wf k have "local_ok opts sid (parent_from Fulfilled ls k) (fst (ls ! k)) (snd (ls ! k))"
    by (rule wf_local)
  with w have par: "parent_from Fulfilled ls k = Fulfilled" and d: "dispatches opts sid (fst (ls ! k)) \<noteq> []"
    by simp_all
  from d have "\<not> owner_conversion_throws (q_message (fst (ls ! k)))"
    using dispatches_Nil [of opts sid "fst (ls ! k)"] by simp
  with st_cases par have "local_ok opts sid (parent_from Fulfilled ls k) (fst (ls ! k)) st"
    by auto
  with wf k w have 1: "wf_links opts sid Fulfilled ls'"
    unfolding ls' by (intro wf_update) simp_all
  from st_cases have stw: "st \<noteq> Waiting" and sti: "st \<noteq> InFlight" by auto
  have 2: "invoked opts sid Fulfilled ls' = invoked opts sid Fulfilled ls"
    unfolding ls' using wf k w stw by (rule invoked_settle)
  have 3: "\<not> (\<exists>l \<in> set ls'. snd l = InFlight)"
    unfolding ls' using none_in_flight_after_settle [OF wf k w sti] by blast
  from w k have "\<exists>l \<in> set ls. snd l = InFlight" by (metis nth_mem)
  with busy have b: "busy_after False t" by simp
  have 4: "(\<exists>x \<in> set (t @ [Completed i out]). is_failure x) \<longrightarrow> (\<exists>l \<in> set ls'. is_rejected (snd l))"
  proof
    assume f: "\<exists>x \<in> set (t @ [Completed i out]). is_failure x"
    show "\<exists>l \<in> set ls'. is_rejected (snd l)"
    proof (cases out)
      case (Fail e)
      then have "st = Rejected e" by (simp add: st_def)
      then show ?thesis unfolding ls' by (intro bexI [OF _ kin]) simp
    next
      case (Succeed v)
      with f have "\<exists>x \<in> set t. is_failure x" by simp
      with failed have "\<exists>l \<in> set ls. is_rejected (snd l)" by blast
      moreover from w have "\<not> is_rejected (snd (ls ! k))" by simp
      ultimately show ?thesis unfolding ls' using k by (intro rejected_update_other)
    qed
  qed
  from 1 2 3 4 calls seq b ab os show ?thesis
    by (simp add: chain_inv_def calls_of_append sequential_append busy_after_append aborts_append)
qed

lemma react_advances: "react opts sid k ls = (ls', cs) \<Longrightarrow> advances ls ls'"
  unfolding advances_def react_def set_state_def
  by (auto split: if_splits lstate.splits pm_result.splits)

lemma settle_advances: "settle k out ls = (ls', os) \<Longrightarrow> advances ls ls'"
  unfolding advances_def settle_def set_state_def
  by (auto split: if_splits)


lemma advances_length: "advances ls ls' \<Longrightarrow> length ls' = length ls"
  by (auto simp: advances_def)

lemma advances_settled:
  "advances ls ls' \<Longrightarrow> j < length ls \<Longrightarrow> snd (ls ! j) = Fulfilled \<or> is_rejected (snd (ls ! j)) \<Longrightarrow>
   ls' ! j = ls ! j"
  unfolding advances_def by (auto simp: nth_list_update)

lemma advances_final:
  assumes "advances ls ls'" "final_state ls = Fulfilled \<or> is_rejected (final_state ls)"
  shows "final_state ls' = final_state ls"
proof (cases "ls = []")
  case True
  with assms(1) show ?thesis by (auto simp: advances_def)
next
  case False
  then have j: "length ls - 1 < length ls" by simp
  from False assms(1) have ne: "ls' \<noteq> []" using advances_length by fastforce
  from assms(2) False have "snd (ls ! (length ls - 1)) = Fulfilled \<or> is_rejected (snd (ls ! (length ls - 1)))"
    by (simp add: final_state_def last_conv_nth)
  with assms(1) j have "ls' ! (length ls - 1) = ls ! (length ls - 1)"
    by (rule advances_settled)
  with False ne advances_length [OF assms(1)] show ?thesis
    by (simp add: final_state_def last_conv_nth)
qed

subsection \<open>Steps of the gateway\<close>

lemma await_all_fields [simp]:
  "chains (await_all s) = chains s" "trace (await_all s) = trace s"
  "otherEvents (await_all s) = otherEvents s"
  by (simp_all add: await_all_def Let_def split: option.splits)

lemma await_all_settled: "returned s = Some r \<Longrightarrow> await_all s = s"
  by (simp add: await_all_def)

lemma moved_fields [simp]:
  "chains (moved s i ls' xs) = (chains s)[i := (fst (chains s ! i), ls')]"
  "trace (moved s i ls' xs) = trace s @ xs"
  "otherEvents (moved s i ls' xs) = otherEvents s"
  by (simp_all add: moved_def)

lemma moved_returned: "returned s = Some r \<Longrightarrow> returned (moved s i ls' xs) = Some r"
  by (simp add: moved_def await_all_def)

lemma step_cases:
  obtains (idle) "step opts a s = s"
  | (move) i ls' xs where "i < length (chains s)"
      "advances (snd (chains s ! i)) ls'"
      "\<And>t. chain_inv opts (fst (chains s ! i)) (snd (chains s ! i)) t
           \<Longrightarrow> chain_inv opts (fst (chains s ! i)) ls' (t @ xs)"
      "\<forall>x \<in> set xs. obs_chain x = i"
      "step opts a s = moved s i ls' xs"
proof (cases a)
  case (React i k)
  show ?thesis
  proof (cases "i < length (chains s)")
    case False
    with React have "step opts a s = s" by simp
    then show ?thesis by (rule idle)
  next
    case True
    obtain ls' cs where r: "react opts (fst (chains s ! i)) k (snd (chains s ! i)) = (ls', cs)"
      by (cases "react opts (fst (chains s ! i)) k (snd (chains s ! i))")
    show ?thesis
    proof (rule move [of i ls' "map (Invoked i) cs"])
      show "i < length (chains s)" by (rule True)
      show "advances (snd (chains s ! i)) ls'" using r by (rule react_advances)
      show "chain_inv opts (fst (chains s ! i)) ls' (t @ map (Invoked i) cs)"
        if "chain_inv opts (fst (chains s ! i)) (snd (chains s ! i)) t" for t
        using that r by (rule chain_inv_React)
      show "\<forall>x \<in> set (map (Invoked i) cs). obs_chain x = i" by simp
      show "step opts a s = moved s i ls' (map (Invoked i) cs)"
        using React True r by (simp add: moved_def)
    qed
  qed
next
  case (Settle i k out)
  show ?thesis
  proof (cases "i < length (chains s)")
    case False
    with Settle have "step opts a s = s" by simp
    then show ?thesis by (rule idle)
  next
    case True
    obtain ls' os where r: "settle k out (snd (chains s ! i)) = (ls', os)"
      by (cases "settle k out (snd (chains s ! i))")
    show ?thesis
    proof (rule move [of i ls' "map (Completed i) os"])
      show "i < length (chains s)" by (rule True)
      show "advances (snd (chains s ! i)) ls'" using r by (rule settle_advances)
      show "chain_inv opts (fst (chains s ! i)) ls' (t @ map (Completed i) os)"
        if "chain_inv opts (fst (chains s ! i)) (snd (chains s ! i)) t" for t
        using that r by (rule chain_inv_Settle)
      show "\<forall>x \<in> set (map (Completed i) os). obs_chain x = i" by simp
      show "step opts a s = moved s i ls' (map (Completed i) os)"
        using Settle True r by (simp add: moved_def)
    qed
  qed
qed

lemma trace_of_append_same: "\<forall>x \<in> set xs. obs_chain x = i \<Longrightarrow> trace_of i (tr @ xs) = trace_of i tr @ xs"
  by (simp add: trace_of_def)

lemma trace_of_append_other:
  "\<forall>x \<in> set xs. obs_chain x = i \<Longrightarrow> j \<noteq> i \<Longrightarrow> trace_of j (tr @ xs) = trace_of j tr"
  by (simp add: trace_of_def)

lemma first_rejection_Some: "first_rejection sts = Some e \<Longrightarrow> Rejected e \<in> set sts"
  by (induction sts rule: first_rejection.induct) simp_all

lemma joined_await_all: "(returned s \<noteq> None \<Longrightarrow> joined s) \<Longrightarrow> joined (await_all s)"
proof (cases "returned s")
  case (Some r)
  assume "returned s \<noteq> None \<Longrightarrow> joined s"
  with Some show ?thesis by (simp add: await_all_settled)
next
  case None
  have f: "finals (s\<lparr>returned := r\<rparr>) = finals s" for r
    by (simp add: finals_def)
  show ?thesis
  proof (cases "first_rejection (finals s)")
    case (Some e)
    with None have "await_all s = s\<lparr>returned := Some (Inl e)\<rparr>"
      by (simp add: await_all_def finals_def)
    with first_rejection_Some [OF Some] show ?thesis by (simp add: joined_def f)
  next
    case nr: None
    show ?thesis
    proof (cases "list_all (\<lambda>st. st = Fulfilled) (finals s)")
      case True
      with None nr have "await_all s = s\<lparr>returned := Some (Inr (otherEvents s))\<rparr>"
        by (simp add: await_all_def finals_def)
      with True show ?thesis by (simp add: joined_def f)
    next
      case False
      with None nr have "await_all s = s"
        by (simp add: await_all_def finals_def)
      with None nr False show ?thesis by (simp add: joined_def)
    qed
  qed
qed

lemma finals_update:
  "i < length (chains s) \<Longrightarrow>
   finals (s\<lparr>chains := (chains s)[i := (sid, ls')], trace := tr\<rparr>) = (finals s)[i := final_state ls']"
  by (simp add: finals_def map_update)

lemma joined_moved:
  assumes j: "joined s" and i: "i < length (chains s)" and adv: "advances (snd (chains s ! i)) ls'"
  shows "joined (moved s i ls' xs)"
  unfolding moved_def
proof (rule joined_await_all)
  let ?s1 = "s\<lparr>chains := (chains s)[i := (fst (chains s ! i), ls')], trace := trace s @ xs\<rparr>"
  assume "returned ?s1 \<noteq> None"
  then obtain r where r: "returned s = Some r" by auto
  have fu: "finals ?s1 = (finals s)[i := final_state ls']"
    using i by (rule finals_update)
  have fi: "finals s ! i = final_state (snd (chains s ! i))"
    using i by (simp add: finals_def)
  have len: "i < length (finals s)" using i by (simp add: finals_def)
  show "joined ?s1"
  proof (cases r)
    case (Inl e)
    with j r have "Rejected e \<in> set (finals s)" by (simp add: joined_def)
    then obtain n where n: "n < length (finals s)" "finals s ! n = Rejected e"
      by (auto simp: in_set_conv_nth)
    have "(finals s)[i := final_state ls'] ! n = Rejected e"
    proof (cases "n = i")
      case True
      with n fi have "is_rejected (final_state (snd (chains s ! i)))" by simp
      with adv have "final_state ls' = final_state (snd (chains s ! i))"
        by (intro advances_final) simp_all
      with True n fi show ?thesis by simp
    next
      case False
      with n show ?thesis by simp
    qed
    with n(1) have "Rejected e \<in> set ((finals s)[i := final_state ls'])"
      by (metis length_list_update nth_mem)
    with Inl r fu show ?thesis by (simp add: joined_def)
  next
    case (Inr ys)
    with j r have ys: "ys = otherEvents s" and all: "list_all (\<lambda>st. st = Fulfilled) (finals s)"
      by (simp_all add: joined_def)
    from all len have "finals s ! i = Fulfilled" by (simp add: list_all_length)
    with fi have "final_state (snd (chains s ! i)) = Fulfilled" by simp
    with adv have "final_state ls' = Fulfilled"
      using advances_final [of "snd (chains s ! i)" ls'] by simp
    with \<open>finals s ! i = Fulfilled\<close> have "(finals s)[i := final_state ls'] = finals s"
      by (metis list_update_id)
    with Inr r fu ys all show ?thesis by (simp add: joined_def)
  qed
qed

lemma sys_inv_step: "sys_inv opts s \<Longrightarrow> sys_inv opts (step opts a s)"
proof (cases opts a s rule: step_cases)
  case idle
  assume "sys_inv opts s"
  with idle show ?thesis by simp
next
  case (move i ls' xs)
  assume inv: "sys_inv opts s"
  have "chain_inv opts (fst (chains (moved s i ls' xs) ! n)) (snd (chains (moved s i ls' xs) ! n))
          (trace_of n (trace (moved s i ls' xs)))"
    if n: "n < length (chains s)" for n
  proof (cases "n = i")
    case True
    from inv move(1) have "chain_inv opts (fst (chains s ! i)) (snd (chains s ! i)) (trace_of i (trace s))"
      by (simp add: sys_inv_def)
    then have "chain_inv opts (fst (chains s ! i)) ls' (trace_of i (trace s) @ xs)"
      by (rule move(3))
    with True move(1,4) show ?thesis by (simp add: trace_of_append_same)
  next
    case False
    from inv n have "chain_inv opts (fst (chains s ! n)) (snd (chains s ! n)) (trace_of n (trace s))"
      by (simp add: sys_inv_def)
    with False show ?thesis by (simp add: trace_of_append_other [OF move(4) False])
  qed
  moreover from inv move(1,2) have "joined (moved s i ls' xs)"
    by (intro joined_moved) (simp_all add: sys_inv_def)
  ultimately show ?thesis using move(5) by (simp add: sys_inv_def)
qed

lemma sys_inv_run: "sys_inv opts s \<Longrightarrow> sys_inv opts (run opts sched s)"
  unfolding run_def by (induction sched arbitrary: s) (simp_all add: sys_inv_step)

subsection \<open>Reachable states\<close>

lemma chain_inv_init: "chain_inv opts sid (map (\<lambda>q. (q, Waiting)) qs) []"
  by (simp add: chain_inv_def wf_all_waiting invoked_all_waiting)

lemma processEvent_page:
  "body_object b = JStr ''page'' \<Longrightarrow>
   processEvent b =
     await_all \<lparr>chains = map processEventsOfSender (fst (group_events (body_entry b))),
                otherEvents = snd (group_events (body_entry b)), returned = None, trace = []\<rparr>"
  by (simp add: processEvent_def split: prod.splits)

lemma processEvent_other:
  "body_object b \<noteq> JStr ''page'' \<Longrightarrow>
   processEvent b = \<lparr>chains = [], otherEvents = [], returned = Some (Inr []), trace = []\<rparr>"
  by (simp add: processEvent_def)

lemma sys_inv_init: "sys_inv opts (processEvent b)"
proof (cases "body_object b = JStr ''page''")
  case False
  then show ?thesis
    by (simp add: processEvent_other sys_inv_def joined_def finals_def)
next
  case True
  let ?s0 = "\<lparr>chains = map processEventsOfSender (fst (group_events (body_entry b))),
               otherEvents = snd (group_events (body_entry b)), returned = None, trace = []\<rparr>"
  have "chain_inv opts (fst (chains ?s0 ! i)) (snd (chains ?s0 ! i)) (trace_of i (trace ?s0))"
    if "i < length (chains ?s0)" for i
    using that by (simp add: processEventsOfSender_def trace_of_def chain_inv_init split: prod.splits)
  moreover have "joined (await_all ?s0)"
    by (rule joined_await_all) simp
  ultimately show ?thesis
    by (simp add: processEvent_page [OF True] sys_inv_def)
qed

lemma reachable_inv: "sys_inv opts (run opts sched (processEvent b))"
  by (rule sys_inv_run [OF sys_inv_init])



lemma step_otherEvents: "otherEvents (step opts a s) = otherEvents s"
  by (cases opts a s rule: step_cases) simp_all

lemma step_length: "length (chains (step opts a s)) = length (chains s)"
  by (cases opts a s rule: step_cases) simp_all

lemma step_returned: "returned s = Some r \<Longrightarrow> returned (step opts a s) = Some r"
  by (cases opts a s rule: step_cases) (simp_all add: moved_returned)


lemma run_otherEvents: "otherEvents (run opts sched s) = otherEvents s"
  unfolding run_def by (induction sched arbitrary: s) (simp_all add: step_otherEvents)

lemma run_length: "length (chains (run opts sched s)) = length (chains s)"
  unfolding run_def by (induction sched arbitrary: s) (simp_all add: step_length)

lemma run_returned: "returned s = Some r \<Longrightarrow> returned (run opts sched s) = Some r"
  unfolding run_def by (induction sched arbitrary: s) (simp_all add: step_returned)




lemma step_other_chain:
  "action_chain a \<noteq> j \<Longrightarrow> chains (step opts a s) ! j = chains s ! j"
  by (cases a) (simp_all split: prod.splits)

lemma step_same_chain:
  assumes "chains s ! j = chains s' ! j" "j < length (chains s)" "j < length (chains s')"
  shows "chains (step opts a s) ! j = chains (step opts a s') ! j"
proof (cases "action_chain a = j")
  case False
  with assms(1) show ?thesis by (simp add: step_other_chain)
next
  case True
  with assms show ?thesis by (cases a) (simp_all split: prod.splits)
qed

lemma run_independent:
  "chains s ! j = chains s' ! j \<Longrightarrow> j < length (chains s) \<Longrightarrow> j < length (chains s') \<Longrightarrow>
   chains (run opts sched s) ! j = chains (run opts (filter (\<lambda>a. action_chain a = j) sched) s') ! j"
proof (induction sched arbitrary: s s')
  case Nil
  then show ?case by (simp add: run_def)
next
  case (Cons a sched)
  show ?case
  proof (cases "action_chain a = j")
    case True
    have "chains (step opts a s) ! j = chains (step opts a s') ! j"
      using Cons.prems by (rule step_same_chain)
    then have "chains (run opts sched (step opts a s)) ! j =
               chains (run opts (filter (\<lambda>a. action_chain a = j) sched) (step opts a s')) ! j"
      using Cons.prems by (intro Cons.IH) (simp_all add: step_length)
    with True show ?thesis by (simp add: run_def)
  next
    case False
    then have "chains (step opts a s) ! j = chains s' ! j"
      using Cons.prems(1) by (simp add: step_other_chain)
    then have "chains (run opts sched (step opts a s)) ! j =
               chains (run opts (filter (\<lambda>a. action_chain a = j) sched) s') ! j"
      using Cons.prems by (intro Cons.IH) (simp_all add: step_length)
    with False show ?thesis by (simp add: run_def)
  qed
qed

subsection \<open>The result of grouping\<close>

lemma group_events_others:
  "snd (group_events es) = filter (\<lambda>q. \<not> processable q) (all_events es)"
  by (simp add: group_events_route_q snd_fold_route_q)








subsection \<open>Discarded events\<close>

lemma truthy_defined: "truthy v \<Longrightarrow> v \<noteq> JUndefined"
  by auto

lemma discards_processable: "discards opts m \<Longrightarrow> is_process_event m"
  by (auto simp: discards_def is_process_event_def PROCESS_EVENTS_def split: if_splits dest: truthy_defined)

lemma dispatches_message:
  "c \<in> set (dispatches opts sid q) \<Longrightarrow> processMessage opts (q_message q) sid (q_pageId q) = Dispatched c"
  by (auto simp: dispatches_def split: pm_result.splits)

lemma invoked_origin:
  "c \<in> set (invoked opts sid p ls) \<Longrightarrow> \<exists>l \<in> set ls. c \<in> set (dispatches opts sid (fst l))"
  by (induction ls arbitrary: p) (auto split: if_splits)

lemma calls_of_trace_of: "Invoked i c \<in> set tr \<Longrightarrow> c \<in> set (calls_of (trace_of i tr))"
  unfolding trace_of_def
  by (induction tr rule: calls_of.induct) auto

lemma trace_bounded_step: "trace_bounded s \<Longrightarrow> trace_bounded (step opts a s)"
  by (cases opts a s rule: step_cases) (auto simp: trace_bounded_def)

lemma trace_bounded_run: "trace_bounded s \<Longrightarrow> trace_bounded (run opts sched s)"
  unfolding run_def by (induction sched arbitrary: s) (simp_all add: trace_bounded_step)

lemma trace_bounded_init: "trace_bounded (processEvent b)"
  by (cases "body_object b = JStr ''page''")
     (simp_all add: processEvent_page processEvent_other trace_bounded_def)

lemma invoked_in_run:
  assumes "Invoked i c \<in> set (trace (run opts sched (processEvent b)))"
  shows "\<exists>sid pid. processMessage opts (call_message c) sid pid = Dispatched c"
proof -
  define s where "s = run opts sched (processEvent b)"
  have "trace_bounded s" unfolding s_def by (rule trace_bounded_run [OF trace_bounded_init])
  with assms have i: "i < length (chains s)" by (auto simp: trace_bounded_def s_def)
  have "sys_inv opts s" unfolding s_def by (rule reachable_inv)
  with i have "calls_of (trace_of i (trace s)) = invoked opts (fst (chains s ! i)) Fulfilled (snd (chains s ! i))"
    by (simp add: sys_inv_def chain_inv_def)
  moreover from assms have "c \<in> set (calls_of (trace_of i (trace s)))"
    unfolding s_def by (rule calls_of_trace_of)
  ultimately obtain l where "c \<in> set (dispatches opts (fst (chains s ! i)) (fst l))"
    using invoked_origin by fastforce
  then have d: "processMessage opts (q_message (fst l)) (fst (chains s ! i)) (q_pageId (fst l)) = Dispatched c"
    by (rule dispatches_message)
  then have "call_message c = q_message (fst l)" by (simp add: processMessage_Dispatched)
  with d show ?thesis by auto
qed

lemma discarded_never_invoked:
  assumes "discards opts m" "Invoked i c \<in> set (trace (run opts sched (processEvent b)))"
  shows "call_message c \<noteq> m"
proof
  assume "call_message c = m"
  with invoked_in_run [OF assms(2)] obtain sid pid where "processMessage opts m sid pid = Dispatched c"
    by auto
  with processMessage_discards [OF assms(1), of sid pid] show False by simp
qed

lemma returned_others:
  assumes "returned (run opts sched (processEvent b)) = Some (Inr xs)"
  shows "xs = otherEvents (processEvent b)"
proof -
  have "sys_inv opts (run opts sched (processEvent b))" by (rule reachable_inv)
  with assms have "xs = otherEvents (run opts sched (processEvent b))"
    by (simp add: sys_inv_def joined_def)
  then show ?thesis by (simp add: run_otherEvents)
qed

lemma otherEvents_not_processable:
  "q \<in> set (otherEvents (processEvent b)) \<Longrightarrow> \<not> is_process_event (q_message q)"
  by (cases "body_object b = JStr ''page''")
     (auto simp: processEvent_page processEvent_other group_events_others processable_def)

lemma processable_not_returned:
  assumes "is_process_event m" "returned (run opts sched (processEvent b)) = Some (Inr xs)" "q \<in> set xs"
  shows "q_message q \<noteq> m"
  using assms otherEvents_not_processable [of q b] returned_others [OF assms(2)] by auto




lemma first_rejection_None: "first_rejection sts = None \<Longrightarrow> Rejected e \<notin> set sts"
  by (induction sts rule: first_rejection.induct) simp_all


lemma react_discarded:
  "discards opts (q_message (fst (ls ! k))) \<Longrightarrow> k < length ls \<Longrightarrow> snd (ls ! k) = Waiting \<Longrightarrow>
   parent_state ls k = Fulfilled \<Longrightarrow> react opts sid k ls = (set_state k Fulfilled ls, [])"
  by (simp add: react_def processMessage_discards)

lemma react_then_succeed:
  assumes "k < length ls" "snd (ls ! k) = Waiting" "parent_state ls k = Fulfilled"
    "\<not> owner_conversion_throws (q_message (fst (ls ! k)))"
  shows "fst (settle k (Succeed v) (fst (react opts sid k ls))) = set_state k Fulfilled ls"
proof (cases "processMessage opts (q_message (fst (ls ! k))) sid (q_pageId (fst (ls ! k)))")
  case (Resolved w)
  with assms show ?thesis by (simp add: react_def settle_def set_state_def)
next
  case (Dispatched c)
  with assms show ?thesis by (simp add: react_def settle_def set_state_def)
next
  case (Thrown e)
  with assms(4) show ?thesis using processMessage_Thrown by blast
qed

lemma next_parent: "k < length ls \<Longrightarrow> parent_state (set_state k Fulfilled ls) (Suc k) = Fulfilled"
  by (simp add: parent_state_def set_state_def)

lemma step_React_discarded:
  assumes "i < length (chains s)" "k < length (snd (chains s ! i))"
    "discards opts (q_message (fst (snd (chains s ! i) ! k)))"
    "snd (snd (chains s ! i) ! k) = Waiting" "parent_state (snd (chains s ! i)) k = Fulfilled"
  shows "trace (step opts (React i k) s) = trace s"
    and "snd (chains (step opts (React i k) s) ! i) = set_state k Fulfilled (snd (chains s ! i))"
  using assms react_discarded [OF assms(3,2,4,5), of "fst (chains s ! i)"] by simp_all

lemma single_event_dispatch:
  assumes "is_process_event m" "processMessage opts m (sender_of m) pid = Dispatched c"
  shows "trace (run opts [React 0 0] (processEvent (single_event pid m))) = [Invoked 0 c]"
proof -
  have g: "group_events (body_entry (single_event pid m)) = ([(sender_of m, [Queued m pid])], [])"
    using assms(1) by (simp add: single_event_def group_events_def group_entry_def route_def)
  have p: "processEvent (single_event pid m) =
          \<lparr>chains = [(sender_of m, [(Queued m pid, Waiting)])], otherEvents = [], returned = None, trace = []\<rparr>"
    by (simp add: processEvent_def g processEventsOfSender_def await_all_def final_state_def)
      (simp add: single_event_def)
  show ?thesis
    using assms(2) by (simp add: run_def p react_def parent_state_def)
qed

subsection \<open>Progress of a chain\<close>

lemma step_React_chain:
  "i < length (chains s) \<Longrightarrow>
   chains (step opts (React i k) s) ! i
     = (fst (chains s ! i), fst (react opts (fst (chains s ! i)) k (snd (chains s ! i))))"
  by (simp split: prod.splits)

lemma step_React_trace:
  "i < length (chains s) \<Longrightarrow>
   trace (step opts (React i k) s)
     = trace s @ map (Invoked i) (snd (react opts (fst (chains s ! i)) k (snd (chains s ! i))))"
  by (simp split: prod.splits)



lemma react_forwards:
  assumes "k < length ls" "snd (ls ! k) = Waiting" "parent_state ls k = Fulfilled"
    "\<not> discards opts (q_message (fst (ls ! k)))" "\<not> owner_conversion_throws (q_message (fst (ls ! k)))"
  shows "\<exists>c. call_origin c = fst (ls ! k) \<and> react opts sid k ls = (set_state k InFlight ls, [c])"
proof -
  from processMessage_forwards [OF assms(4,5)]
  obtain c where c: "processMessage opts (q_message (fst (ls ! k))) sid (q_pageId (fst (ls ! k))) = Dispatched c"
    by blast
  then have "c \<in> set (dispatches opts sid (fst (ls ! k)))" by (simp add: dispatches_def)
  then have "call_origin c = fst (ls ! k)" by (rule dispatches_origin)
  moreover from c assms(1-3) have "react opts sid k ls = (set_state k InFlight ls, [c])"
    by (simp add: react_def)
  ultimately show ?thesis by blast
qed



















subsection \<open>One event after the other\<close>

lemma set_state_length: "length (set_state k st ls) = length ls"
  by (simp add: set_state_def)

lemma set_state_next: "Suc k < length ls \<Longrightarrow> set_state k st ls ! Suc k = ls ! Suc k"
  by (simp add: set_state_def)

lemma step_React_dispatches:
  assumes "i < length (chains s)" "k < length (snd (chains s ! i))"
    "snd (snd (chains s ! i) ! k) = Waiting" "parent_state (snd (chains s ! i)) k = Fulfilled"
    "\<not> discards opts (q_message (fst (snd (chains s ! i) ! k)))"
    "\<not> owner_conversion_throws (q_message (fst (snd (chains s ! i) ! k)))"
  shows "\<exists>c. call_origin c = fst (snd (chains s ! i) ! k)
           \<and> trace (step opts (React i k) s) = trace s @ [Invoked i c]
           \<and> snd (chains (step opts (React i k) s) ! i) = set_state k InFlight (snd (chains s ! i))"
proof -
  from react_forwards [OF assms(2-6), of "fst (chains s ! i)"]
  obtain c where c: "call_origin c = fst (snd (chains s ! i) ! k)"
    and r: "react opts (fst (chains s ! i)) k (snd (chains s ! i)) = (set_state k InFlight (snd (chains s ! i)), [c])"
    by blast
  have "trace (step opts (React i k) s) = trace s @ [Invoked i c]"
    using step_React_trace [OF assms(1), of opts k] r by simp
  moreover have "snd (chains (step opts (React i k) s) ! i) = set_state k InFlight (snd (chains s ! i))"
    using step_React_chain [OF assms(1), of opts k] r by simp
  ultimately show ?thesis using c by blast
qed



lemma run_two: "run opts [a, a'] s = step opts a' (step opts a s)"
  by (simp add: run_def)

lemma next_event_after:
  assumes i: "i < length (chains s1)"
    and c1: "snd (chains s1 ! i) = set_state k Fulfilled ls"
    and k: "Suc k < length ls"
    and w: "snd (ls ! Suc k) = Waiting"
    and nd: "\<not> discards opts (q_message (fst (ls ! Suc k)))"
    and nt: "\<not> owner_conversion_throws (q_message (fst (ls ! Suc k)))"
  shows "\<exists>c. call_origin c = fst (ls ! Suc k) \<and> trace (step opts (React i (Suc k)) s1) = trace s1 @ [Invoked i c]"
proof -
  have e: "snd (chains s1 ! i) ! Suc k = ls ! Suc k"
    unfolding c1 using k by (rule set_state_next)
  have "Suc k < length (snd (chains s1 ! i))" using k by (simp add: c1 set_state_length)
  moreover have "snd (snd (chains s1 ! i) ! Suc k) = Waiting" using w by (simp add: e)
  moreover have "parent_state (snd (chains s1 ! i)) (Suc k) = Fulfilled"
    unfolding c1 using k by (intro next_parent) simp
  moreover have "\<not> discards opts (q_message (fst (snd (chains s1 ! i) ! Suc k)))" using nd by (simp add: e)
  moreover have "\<not> owner_conversion_throws (q_message (fst (snd (chains s1 ! i) ! Suc k)))"
    using nt by (simp add: e)
  ultimately obtain c where "call_origin c = fst (snd (chains s1 ! i) ! Suc k)"
    "trace (step opts (React i (Suc k)) s1) = trace s1 @ [Invoked i c]"
    using step_React_dispatches [OF i, of "Suc k" opts] by blast
  then show ?thesis by (auto simp: e)
qed


text \<open>After the reaction of a link whose event is discarded, the reaction of the next link makes the call for the next event.\<close>

lemma discarded_then_next:
  assumes i: "i < length (chains s)"
    and k: "Suc k < length (snd (chains s ! i))"
    and w: "snd (snd (chains s ! i) ! k) = Waiting"
    and p: "parent_state (snd (chains s ! i)) k = Fulfilled"
    and d: "discards opts (q_message (fst (snd (chains s ! i) ! k)))"
    and w': "snd (snd (chains s ! i) ! Suc k) = Waiting"
    and nd: "\<not> discards opts (q_message (fst (snd (chains s ! i) ! Suc k)))"
    and nt: "\<not> owner_conversion_throws (q_message (fst (snd (chains s ! i) ! Suc k)))"
  shows "\<exists>c. call_origin c = fst (snd (chains s ! i) ! Suc k)
           \<and> trace (run opts [React i k, React i (Suc k)] s) = trace s @ [Invoked i c]"
proof -
  define s1 where "s1 = step opts (React i k) s"
  from k have k': "k < length (snd (chains s ! i))" by simp
  have t1: "trace s1 = trace s"
    unfolding s1_def by (rule step_React_discarded(1) [OF i k' d w p])
  have c1: "snd (chains s1 ! i) = set_state k Fulfilled (snd (chains s ! i))"
    unfolding s1_def by (rule step_React_discarded(2) [OF i k' d w p])
  have i1: "i < length (chains s1)" using i unfolding s1_def by (simp only: step_length)
  have r: "run opts [React i k, React i (Suc k)] s = step opts (React i (Suc k)) s1"
    by (simp only: run_two s1_def)
  from next_event_after [OF i1 c1 k w' nd nt]
  obtain c where "call_origin c = fst (snd (chains s ! i) ! Suc k)"
    "trace (step opts (React i (Suc k)) s1) = trace s1 @ [Invoked i c]" by blast
  then have "call_origin c = fst (snd (chains s ! i) ! Suc k)
       \<and> trace (run opts [React i k, React i (Suc k)] s) = trace s @ [Invoked i c]"
    by (simp only: r t1 simp_thms)
  then show ?thesis by blast
qed

subsection \<open>The calls of a chain and the events of its queue\<close>





subsection \<open>A conversion that throws\<close>

lemma first_error_Inl: "first_error rs = Inl e \<Longrightarrow> Inl e \<in> set rs"
  by (induction rs rule: first_error.induct) (auto split: sum.splits)

lemma template_string_error: "template_string v = Inl e \<Longrightarrow> e = TypeError"
proof (induction v arbitrary: e rule: template_string.induct)
  case (6 xs)
  from "6.prems" obtain e' where
    f: "first_error (map (\<lambda>x. if x = JUndefined \<or> x = JNull then Inr [] else template_string x) xs) = Inl e'"
    and e': "e' = e"
    by (auto split: sum.splits)
  from f have "Inl e' \<in> set (map (\<lambda>x. if x = JUndefined \<or> x = JNull then Inr [] else template_string x) xs)"
    by (rule first_error_Inl)
  then obtain x where x: "x \<in> set xs" "\<not> (x = JUndefined \<or> x = JNull)" "template_string x = Inl e'"
    by (auto split: if_splits)
  then have "e' = TypeError" by (rule "6.IH")
  with e' show ?case by simp
qed (auto split: if_splits)

lemma processMessage_throws_TypeError:
  assumes "owner_conversion_throws m"
  shows "processMessage opts m sid pid = Thrown TypeError"
proof -
  from processMessage_throws [OF assms] obtain e where e: "processMessage opts m sid pid = Thrown e"
    by blast
  then have "e = TypeError"
    by (auto simp: processMessage_def template_string_option Let_def
        split: if_splits sum.splits dest: template_string_error)
  with e show ?thesis by simp
qed

lemma throwing_never_invoked:
  assumes "owner_conversion_throws m" "Invoked i c \<in> set (trace (run opts sched (processEvent b)))"
  shows "call_message c \<noteq> m"
proof
  assume "call_message c = m"
  with invoked_in_run [OF assms(2)] obtain sid pid where "processMessage opts m sid pid = Dispatched c"
    by auto
  with processMessage_throws [OF assms(1), of opts sid pid] show False by auto
qed





section \<open>The claims\<close>

subsection \<open>Routing of the events of a body\<close>



subsection \<open>Order of dispatch for one sender\<close>




subsection \<open>Failure of the processor\<close>

text \<open>
  Claim C3, as stated, fails in its last part. In the run below the processor fails on
  the first event of sender \<open>a\<close>; the call of \<^verbatim>\<open>processEvent\<close> is rejected with that error
  while the event of sender \<open>b\<close> is still in flight; and when the processor later fails
  on the event of \<open>b\<close> too, the call stays rejected with the first error: the second
  failure is not reported.
\<close>

theorem processEvent_rejects_before_all_settled:
  "returned (run example_options failing_schedule (processEvent example_body)) = Some (Inl (ProcessorError ''boom''))
   \<and> snd (chains (run example_options failing_schedule (processEvent example_body)) ! 1) = [(Queued msg_b1 (JStr ''p1''), InFlight)]
   \<and> returned (run example_options (failing_schedule @ [Settle 1 0 (Fail (ProcessorError ''bang''))])
         (processEvent example_body)) = Some (Inl (ProcessorError ''boom''))
   \<and> snd (chains (run example_options (failing_schedule @ [Settle 1 0 (Fail (ProcessorError ''bang''))])
         (processEvent example_body)) ! 1) = [(Queued msg_b1 (JStr ''p1''), Rejected (ProcessorError ''bang''))]"
  by code_simp

text \<open>
  Claim C3, amended. In every run: what the processor has seen of a chain holds no call
  after a failure (the rest of that sender's queue is not dispatched); the state of a
  chain is the state it reaches when only its own steps are run, so a failure of another
  chain neither stops nor changes it; the call is rejected exactly when the promise of
  some chain is rejected, with the error of a rejected chain, whether the other chains
  have settled or not; and a settled call never changes.
\<close>

theorem processor_failure_isolated:
  "(let s = run opts sched (processEvent b) in
      (\<forall>i < length (chains s). aborts (trace_of i (trace s)))
    \<and> (\<forall>j < length (chains s).
          chains s ! j = chains (run opts (filter (\<lambda>a. action_chain a = j) sched) (processEvent b)) ! j)
    \<and> ((\<exists>e. returned s = Some (Inl e)) = (\<exists>e. Rejected e \<in> set (finals s)))
    \<and> (\<forall>e. returned s = Some (Inl e) \<longrightarrow> Rejected e \<in> set (finals s))
    \<and> (\<forall>r. returned s = Some r \<longrightarrow> returned (run opts sched' s) = Some r))"
proof -
  define s where "s = run opts sched (processEvent b)"
  have inv: "sys_inv opts s" unfolding s_def by (rule reachable_inv)
  have 1: "\<forall>i < length (chains s). aborts (trace_of i (trace s))"
    using inv by (simp add: sys_inv_def chain_inv_def)
  have 2: "\<forall>j < length (chains s).
          chains s ! j = chains (run opts (filter (\<lambda>a. action_chain a = j) sched) (processEvent b)) ! j"
  proof (intro allI impI)
    fix j assume "j < length (chains s)"
    then have j: "j < length (chains (processEvent b))" by (simp add: s_def run_length)
    show "chains s ! j = chains (run opts (filter (\<lambda>a. action_chain a = j) sched) (processEvent b)) ! j"
      unfolding s_def using j by (intro run_independent) simp_all
  qed
  from inv have j: "joined s" by (simp add: sys_inv_def)
  have 4: "\<forall>e. returned s = Some (Inl e) \<longrightarrow> Rejected e \<in> set (finals s)"
    using j by (auto simp: joined_def)
  have 3: "(\<exists>e. returned s = Some (Inl e)) = (\<exists>e. Rejected e \<in> set (finals s))"
  proof
    assume "\<exists>e. returned s = Some (Inl e)"
    with 4 show "\<exists>e. Rejected e \<in> set (finals s)" by blast
  next
    assume "\<exists>e. Rejected e \<in> set (finals s)"
    then obtain e where e: "Rejected e \<in> set (finals s)" by blast
    show "\<exists>e. returned s = Some (Inl e)"
    proof (cases "returned s")
      case None
      with j have "first_rejection (finals s) = None" by (simp add: joined_def)
      with e show ?thesis using first_rejection_None by blast
    next
      case (Some r)
      show ?thesis
      proof (cases r)
        case (Inl e')
        with Some show ?thesis by simp
      next
        case (Inr xs)
        with Some j have "list_all (\<lambda>st. st = Fulfilled) (finals s)" by (simp add: joined_def)
        with e show ?thesis by (auto simp: list_all_iff)
      qed
    qed
  qed
  have 5: "\<forall>r. returned s = Some r \<longrightarrow> returned (run opts sched' s) = Some r"
    by (simp add: run_returned)
  from 1 2 3 4 5 show ?thesis unfolding Let_def s_def by blast
qed


theorem processor_failure_isolated_witness:
  "1 < length (chains (run example_options failing_schedule (processEvent example_body)))
   \<and> aborts (trace_of 0 (trace (run example_options failing_schedule (processEvent example_body))))
   \<and> chains (run example_options failing_schedule (processEvent example_body)) ! 1
       = chains (run example_options (filter (\<lambda>a. action_chain a = 1) failing_schedule)
           (processEvent example_body)) ! 1
   \<and> Rejected (ProcessorError ''boom'') \<in> set (finals (run example_options failing_schedule (processEvent example_body)))
   \<and> returned (run example_options [Settle 1 0 (Fail (ProcessorError ''bang''))]
        (run example_options failing_schedule (processEvent example_body))) = Some (Inl (ProcessorError ''boom''))"
proof -
  have n: "0 < length (chains (run example_options failing_schedule (processEvent example_body)))"
          "1 < length (chains (run example_options failing_schedule (processEvent example_body)))"
    by code_simp+
  have r: "returned (run example_options failing_schedule (processEvent example_body)) = Some (Inl (ProcessorError ''boom''))"
    by code_simp
  from processor_failure_isolated
         [where opts = example_options and sched = failing_schedule and b = example_body
            and sched' = "[Settle 1 0 (Fail (ProcessorError ''bang''))]"]
  have "(\<forall>i < length (chains (run example_options failing_schedule (processEvent example_body))). aborts (trace_of i (trace (run example_options failing_schedule (processEvent example_body)))))
    \<and> (\<forall>j < length (chains (run example_options failing_schedule (processEvent example_body))).
          chains (run example_options failing_schedule (processEvent example_body)) ! j
            = chains (run example_options (filter (\<lambda>a. action_chain a = j) failing_schedule)
                (processEvent example_body)) ! j)
    \<and> (\<forall>e. returned (run example_options failing_schedule (processEvent example_body)) = Some (Inl e) \<longrightarrow> Rejected e \<in> set (finals (run example_options failing_schedule (processEvent example_body))))
    \<and> (\<forall>r. returned (run example_options failing_schedule (processEvent example_body)) = Some r \<longrightarrow>
          returned (run example_options [Settle 1 0 (Fail (ProcessorError ''bang''))] (run example_options failing_schedule (processEvent example_body))) = Some r)"
    unfolding Let_def by blast
  with n r show ?thesis by blast
qed

subsection \<open>The signature of the request\<close>

text \<open>
  Claim C4. With an app secret that is set, \<^verbatim>\<open>verifyRequest\<close> succeeds exactly when the
  signature header is a string whose second part, after splitting on the equals sign, is
  the hex digest of the body under the secret; once a body is accepted, another body is
  accepted exactly when it has the same digest, and a body whose digest differs is
  refused with the Unauthorized error; without a signature
  header the Unauthorized error is thrown. With no app secret it succeeds for every body
  and every header object. The digest is the parameter \<open>hmac\<close>: that one changed byte
  changes the digest is a property of HMAC-SHA1, not of this code.
\<close>

theorem verifyRequest_signature:
  "(appSecret opts = Some secret \<and> secret \<noteq> [] \<longrightarrow>
      ((verifyRequest hmac opts body headers = Inr ()) =
         (\<exists>s. signature headers = JStr s \<and> index (split_on CHR ''='' s) 1 = Some (hmac secret body)))
    \<and> (verifyRequest hmac opts body headers = Inr () \<longrightarrow>
         ((verifyRequest hmac opts body' headers = Inr ()) = (hmac secret body' = hmac secret body)))
    \<and> (verifyRequest hmac opts body headers = Inr () \<and> hmac secret body' \<noteq> hmac secret body \<longrightarrow>
         verifyRequest hmac opts body' headers =
           Inl (getUnauthorizedError ''Couldn't validate the request signature.''))
    \<and> (\<not> truthy (signature headers) \<longrightarrow>
         verifyRequest hmac opts body headers = Inl (getUnauthorizedError ''Missing X-Hub-Signature'')))
 \<and> (\<not> is_set (appSecret opts) \<longrightarrow> verifyRequest hmac opts body headers = Inr ())"
  by (auto simp: verifyRequest_def is_set_def opt_value_def Let_def index_def
      split: option.splits json.splits)

theorem verifyRequest_signature_witness:
  "verifyRequest (\<lambda>k b. k @ b) example_options ''body'' [(''x-hub-signature'', JStr ''sha1=secbody'')] = Inr ()
   \<and> verifyRequest (\<lambda>k b. k @ b) example_options ''bodz'' [(''x-hub-signature'', JStr ''sha1=secbody'')]
       = Inl (getUnauthorizedError ''Couldn't validate the request signature.'')
   \<and> verifyRequest (\<lambda>k b. k @ b) example_options ''body'' [] = Inl (getUnauthorizedError ''Missing X-Hub-Signature'')
   \<and> verifyRequest (\<lambda>k b. k @ b) (example_options\<lparr>appSecret := None\<rparr>) ''body'' [] = Inr ()"
  using verifyRequest_signature [of example_options "''sec''" "\<lambda>k b. k @ b" "''body''"
          "[(''x-hub-signature'', JStr ''sha1=secbody'')]" "''bodz''"]
        verifyRequest_signature [of example_options "''sec''" "\<lambda>k b. k @ b" "''body''" "[]" "''bodz''"]
        verifyRequest_signature [of "example_options\<lparr>appSecret := None\<rparr>" "''sec''" "\<lambda>k b. k @ b"
          "''body''" "[]" "''bodz''"]
  by (simp add: example_options_def signature_def js_or_def obj_get_def index_def is_set_def opt_value_def)

subsection \<open>Thread control\<close>

text \<open>
  Claim C5, as stated, fails in its second part. The take event below has a previous
  owner that differs from the configured app identifier, and a take-thread action is
  configured; but the previous owner is an object with a property \<^verbatim>\<open>toString\<close> of its
  own, the template literal of line 136 throws a \<^verbatim>\<open>TypeError\<close> when it converts it, and
  so \<^verbatim>\<open>processMessage\<close> throws before it looks at the action: no postback is made, the
  processor is not called, and the call of \<^verbatim>\<open>processEvent\<close> is rejected.
\<close>

theorem take_thread_control_conversion_throws:
  "truthy (obj_get msg_take_odd ''take_thread_control'')
   \<and> js_get (obj_get msg_take_odd ''take_thread_control'') ''previous_owner_app_id'' = JObj [(''toString'', JNum ''1'')]
   \<and> opt_value (appId example_options) = JStr ''123''
   \<and> takeThreadAction example_options = Some ''take''
   \<and> processMessage example_options msg_take_odd (JStr ''a'') (JStr ''p1'') = Thrown TypeError
   \<and> trace (run example_options [React 0 0] (processEvent (single_event (JStr ''p1'') msg_take_odd))) = []
   \<and> returned (run example_options [React 0 0] (processEvent (single_event (JStr ''p1'') msg_take_odd)))
       = Some (Inl TypeError)"
  by code_simp

text \<open>
  Claim C5, amended. The previous owner and the configured app identifier are equal when
  the strings that a template literal gives for them are equal. For a message with a
  truthy take-thread-control payload:
  \<^item> when they are equal, \<^verbatim>\<open>processMessage\<close> resolves with status 201 whatever the
    configured actions are, the message is a processable event, so it is never in the
    returned list, and in no run is the processor called for it;
  \<^item> when the previous owner can be converted to a string, that string differs from the
    one of the app identifier, and a take-thread action is set, \<^verbatim>\<open>processMessage\<close> calls
    the processor once, with the postback made of the sender, the action, the payload
    and the timestamp of the message, and that is all the processor sees of a body with
    this one event;
  \<^item> when the conversion of the previous owner throws, \<^verbatim>\<open>processMessage\<close> throws a
    \<^verbatim>\<open>TypeError\<close> and in no run is the processor called for the message.
\<close>

theorem take_thread_control_rule:
  "(truthy (obj_get m ''take_thread_control'') \<and> take_to_self opts m \<longrightarrow>
      processMessage opts m sid pid = Resolved (JObj [(''status'', JNum ''201'')])
    \<and> is_process_event m
    \<and> (\<forall>b sched i c. Invoked i c \<in> set (trace (run opts sched (processEvent b))) \<longrightarrow> call_message c \<noteq> m)
    \<and> (\<forall>b sched xs q. returned (run opts sched (processEvent b)) = Some (Inr xs) \<and> q \<in> set xs
          \<longrightarrow> q_message q \<noteq> m))
 \<and> (truthy (obj_get m ''take_thread_control'') \<and> \<not> owner_conversion_throws m \<and> \<not> take_to_self opts m
      \<and> takeThreadAction opts = Some a \<and> a \<noteq> [] \<longrightarrow>
      processMessage opts m sid pid =
        Dispatched (ProcessorCall
          (RequestPostBack sid (JStr a) (obj_get m ''take_thread_control'') JNull JNull (obj_get m ''timestamp''))
          pid (FacebookSender opts sid m))
    \<and> trace (run opts [React 0 0] (processEvent (single_event pid m))) =
        [Invoked 0 (ProcessorCall
          (RequestPostBack (sender_of m) (JStr a) (obj_get m ''take_thread_control'') JNull JNull
             (obj_get m ''timestamp''))
          pid (FacebookSender opts (sender_of m) m))])
 \<and> (owner_conversion_throws m \<longrightarrow>
      processMessage opts m sid pid = Thrown TypeError
    \<and> (\<forall>b sched i c. Invoked i c \<in> set (trace (run opts sched (processEvent b))) \<longrightarrow> call_message c \<noteq> m))"
proof (intro conjI impI)
  assume h: "truthy (obj_get m ''take_thread_control'') \<and> take_to_self opts m"
  then have "\<not> owner_conversion_throws m" using take_to_self_converts by blast
  with h have d: "discards opts m" by (simp add: discards_def)
  show "processMessage opts m sid pid = Resolved (JObj [(''status'', JNum ''201'')])"
    using d by (rule processMessage_discards)
  show "is_process_event m" using d by (rule discards_processable)
  show "\<forall>b sched i c. Invoked i c \<in> set (trace (run opts sched (processEvent b))) \<longrightarrow> call_message c \<noteq> m"
    using discarded_never_invoked [OF d] by blast
  show "\<forall>b sched xs q. returned (run opts sched (processEvent b)) = Some (Inr xs) \<and> q \<in> set xs
          \<longrightarrow> q_message q \<noteq> m"
    using processable_not_returned [OF discards_processable [OF d]] by blast
next
  assume h: "truthy (obj_get m ''take_thread_control'') \<and> \<not> owner_conversion_throws m \<and> \<not> take_to_self opts m
      \<and> takeThreadAction opts = Some a \<and> a \<noteq> []"
  then obtain owner where
    o: "template_string (js_get (obj_get m ''take_thread_control'') ''previous_owner_app_id'') = Inr owner"
    by (cases "template_string (js_get (obj_get m ''take_thread_control'') ''previous_owner_app_id'')")
       (auto simp: owner_conversion_throws_def)
  have pm: "processMessage opts m s p =
        Dispatched (ProcessorCall
          (RequestPostBack s (JStr a) (obj_get m ''take_thread_control'') JNull JNull (obj_get m ''timestamp''))
          p (FacebookSender opts s m))" for s p
  proof -
    have act: "opt_value (takeThreadAction opts) = JStr a" "is_set (takeThreadAction opts)"
      using h by (simp_all add: opt_value_def is_set_def)
    obtain own where own: "template_string (opt_value (appId opts)) = Inr own"
      by (simp add: template_string_option)
    from h o own have "owner \<noteq> own" by (simp add: take_to_self_def)
    with h o own act show ?thesis by (simp add: processMessage_def)
  qed
  show "processMessage opts m sid pid =
        Dispatched (ProcessorCall
          (RequestPostBack sid (JStr a) (obj_get m ''take_thread_control'') JNull JNull (obj_get m ''timestamp''))
          pid (FacebookSender opts sid m))"
    by (rule pm)
  from h have "obj_get m ''take_thread_control'' \<noteq> JUndefined" by (auto dest: truthy_defined)
  then have "is_process_event m" by (simp add: is_process_event_def PROCESS_EVENTS_def)
  then show "trace (run opts [React 0 0] (processEvent (single_event pid m))) =
        [Invoked 0 (ProcessorCall
          (RequestPostBack (sender_of m) (JStr a) (obj_get m ''take_thread_control'') JNull JNull
             (obj_get m ''timestamp''))
          pid (FacebookSender opts (sender_of m) m))]"
    using pm by (rule single_event_dispatch)
next
  assume t: "owner_conversion_throws m"
  show "processMessage opts m sid pid = Thrown TypeError"
    using t by (rule processMessage_throws_TypeError)
  show "\<forall>b sched i c. Invoked i c \<in> set (trace (run opts sched (processEvent b))) \<longrightarrow> call_message c \<noteq> m"
    using throwing_never_invoked [OF t] by blast
qed

theorem take_thread_control_rule_witness:
  "truthy (obj_get msg_take_self ''take_thread_control'') \<and> take_to_self example_options msg_take_self
   \<and> processMessage example_options msg_take_self (JStr ''a'') (JStr ''p1'')
        = Resolved (JObj [(''status'', JNum ''201'')])
   \<and> is_process_event msg_take_self
   \<and> \<not> take_to_self example_options msg_take_other
   \<and> processMessage example_options msg_take_other (JStr ''a'') (JStr ''p1'') =
        Dispatched (ProcessorCall
          (RequestPostBack (JStr ''a'') (JStr ''take'') (obj_get msg_take_other ''take_thread_control'')
             JNull JNull (obj_get msg_take_other ''timestamp''))
          (JStr ''p1'') (FacebookSender example_options (JStr ''a'') msg_take_other))
   \<and> trace (run example_options [React 0 0] (processEvent (single_event (JStr ''p1'') msg_take_other))) =
        [Invoked 0 (ProcessorCall
          (RequestPostBack (sender_of msg_take_other) (JStr ''take'') (obj_get msg_take_other ''take_thread_control'')
             JNull JNull (obj_get msg_take_other ''timestamp''))
          (JStr ''p1'') (FacebookSender example_options (sender_of msg_take_other) msg_take_other))]
   \<and> owner_conversion_throws msg_take_odd
   \<and> processMessage example_options msg_take_odd (JStr ''a'') (JStr ''p1'') = Thrown TypeError"
proof -
  have h1: "truthy (obj_get msg_take_self ''take_thread_control'') \<and> take_to_self example_options msg_take_self"
    by code_simp
  have h2: "truthy (obj_get msg_take_other ''take_thread_control'') \<and> \<not> owner_conversion_throws msg_take_other
      \<and> \<not> take_to_self example_options msg_take_other
      \<and> takeThreadAction example_options = Some ''take'' \<and> ''take'' \<noteq> []"
    by code_simp
  have h3: "owner_conversion_throws msg_take_odd"
    by code_simp
  from take_thread_control_rule
         [where m = msg_take_self and opts = example_options and sid = "JStr ''a''" and pid = "JStr ''p1''"
            and a = "''take''"]
       take_thread_control_rule
         [where m = msg_take_other and opts = example_options and sid = "JStr ''a''" and pid = "JStr ''p1''"
            and a = "''take''"]
       take_thread_control_rule
         [where m = msg_take_odd and opts = example_options and sid = "JStr ''a''" and pid = "JStr ''p1''"
            and a = "''take''"]
       h1 h2 h3
  show ?thesis by blast
qed

subsection \<open>The challenge of the webhook\<close>

text \<open>
  Claim C6. \<^verbatim>\<open>verifyWebhook\<close> fails with the Unauthorized error, whose code and status
  are 401, when the configured token is unset (absent or empty), when the query has no
  verify-token parameter, and when the parameter differs from the configured token; and
  when the token is set and the parameter of the query is that token, it returns the
  challenge of the query as it is. Every error it gives is an Unauthorized error.
\<close>

theorem verifyWebhook_challenge:
  "(\<not> is_set (botToken opts) \<longrightarrow>
      verifyWebhook opts q = Inl (getUnauthorizedError ''Missing configuration (config.botToken)''))
 \<and> (obj_get q ''hub.verify_token'' = JUndefined \<longrightarrow>
      (\<exists>m. verifyWebhook opts q = Inl (getUnauthorizedError m)))
 \<and> (obj_get q ''hub.verify_token'' \<noteq> opt_value (botToken opts) \<longrightarrow>
      (\<exists>m. verifyWebhook opts q = Inl (getUnauthorizedError m)))
 \<and> (is_set (botToken opts) \<and> obj_get q ''hub.verify_token'' = opt_value (botToken opts) \<longrightarrow>
      verifyWebhook opts q = Inr (obj_get q ''hub.challenge''))
 \<and> (\<forall>e. verifyWebhook opts q = Inl e \<longrightarrow> (\<exists>m. e = HttpError (''Unauthorized: '' @ m) 401 401))"
  by (auto simp: verifyWebhook_def strict_eq_def is_set_def opt_value_def getUnauthorizedError_def
      split: option.splits)

theorem verifyWebhook_challenge_witness:
  "verifyWebhook example_options [(''hub.verify_token'', JStr ''tok''), (''hub.challenge'', JStr ''c42'')]
     = Inr (JStr ''c42'')
   \<and> (\<exists>m. verifyWebhook example_options [(''hub.verify_token'', JStr ''bad''), (''hub.challenge'', JStr ''c42'')]
        = Inl (getUnauthorizedError m))
   \<and> (\<exists>m. verifyWebhook example_options [(''hub.challenge'', JStr ''c42'')] = Inl (getUnauthorizedError m))
   \<and> verifyWebhook (example_options\<lparr>botToken := None\<rparr>) [(''hub.verify_token'', JStr ''tok'')]
        = Inl (getUnauthorizedError ''Missing configuration (config.botToken)'')"
  using verifyWebhook_challenge [of example_options
          "[(''hub.verify_token'', JStr ''tok''), (''hub.challenge'', JStr ''c42'')]"]
        verifyWebhook_challenge [of example_options
          "[(''hub.verify_token'', JStr ''bad''), (''hub.challenge'', JStr ''c42'')]"]
        verifyWebhook_challenge [of example_options "[(''hub.challenge'', JStr ''c42'')]"]
        verifyWebhook_challenge [of "example_options\<lparr>botToken := None\<rparr>" "[(''hub.verify_token'', JStr ''tok'')]"]
  by (simp add: example_options_def is_set_def opt_value_def obj_get_def)

subsection \<open>A body that is not a page\<close>

text \<open>
  Claim C7. For a body whose \<^verbatim>\<open>object\<close> is not the string \<^verbatim>\<open>page\<close>, the call is fulfilled
  with the empty list at once, no chain is built, and in every run nothing is ever
  dispatched to the processor.
\<close>

theorem processEvent_not_page:
  "body_object b \<noteq> JStr ''page'' \<longrightarrow>
     run opts sched (processEvent b) = \<lparr>chains = [], otherEvents = [], returned = Some (Inr []), trace = []\<rparr>"
proof
  assume np: "body_object b \<noteq> JStr ''page''"
  have "fold (step opts) sched \<lparr>chains = [], otherEvents = [], returned = Some (Inr []), trace = []\<rparr>
          = \<lparr>chains = [], otherEvents = [], returned = Some (Inr []), trace = []\<rparr>"
  proof (induction sched)
    case Nil
    show ?case by simp
  next
    case (Cons a sched)
    have "step opts a \<lparr>chains = [], otherEvents = [], returned = Some (Inr []), trace = []\<rparr>
            = \<lparr>chains = [], otherEvents = [], returned = Some (Inr []), trace = []\<rparr>"
      by (cases a) simp_all
    with Cons show ?case by simp
  qed
  with np show "run opts sched (processEvent b) = \<lparr>chains = [], otherEvents = [], returned = Some (Inr []), trace = []\<rparr>"
    by (simp add: run_def processEvent_other)
qed

theorem processEvent_not_page_witness:
  "body_object (example_body\<lparr>body_object := JStr ''user''\<rparr>) \<noteq> JStr ''page''
   \<and> run example_options success_schedule (processEvent (example_body\<lparr>body_object := JStr ''user''\<rparr>))
       = \<lparr>chains = [], otherEvents = [], returned = Some (Inr []), trace = []\<rparr>"
  using processEvent_not_page
          [where b = "example_body\<lparr>body_object := JStr ''user''\<rparr>" and opts = example_options
             and sched = success_schedule]
  by simp

subsection \<open>Thread-control events without a configured action\<close>

text \<open>
  Claim C8, as stated, fails. The first message below is a pass-thread-control event, its
  payload being \<^verbatim>\<open>null\<close>, and no pass-thread action is configured; \<^verbatim>\<open>processMessage\<close>
  tests the payload for truthiness, takes none of its three branches, and hands the
  message to the processor as it is. The second message is a pass-thread-control event
  with a truthy payload that also carries a take-thread-control payload; the take
  branch comes first, a take-thread action is configured, and the processor is called
  with a postback.
\<close>

theorem pass_event_reaches_processor:
  "kind_of msg_pass_null = Some ''pass_thread_control''
   \<and> is_process_event msg_pass_null
   \<and> passThreadAction example_options = None
   \<and> processMessage example_options msg_pass_null (JStr ''a'') (JStr ''p1'')
       = Dispatched (ProcessorCall (Raw msg_pass_null) (JStr ''p1'')
           (FacebookSender example_options (JStr ''a'') msg_pass_null))
   \<and> trace (run example_options [React 0 0] (processEvent (single_event (JStr ''p1'') msg_pass_null)))
       = [Invoked 0 (ProcessorCall (Raw msg_pass_null) (JStr ''p1'')
            (FacebookSender example_options (JStr ''a'') msg_pass_null))]
   \<and> kind_of msg_take_and_pass = Some ''pass_thread_control''
   \<and> truthy (obj_get msg_take_and_pass ''pass_thread_control'')
   \<and> processMessage example_options msg_take_and_pass (JStr ''a'') (JStr ''p1'')
       = Dispatched (ProcessorCall
           (RequestPostBack (JStr ''a'') (JStr ''take'') (obj_get msg_take_and_pass ''take_thread_control'')
              JNull JNull (JNum ''10''))
           (JStr ''p1'') (FacebookSender example_options (JStr ''a'') msg_take_and_pass))"
  by code_simp

text \<open>
  Claim C8, amended. A message whose pass-thread-control payload is truthy (and whose
  take-thread-control payload is not) while no pass-thread action is set, or whose
  request-thread-control payload is truthy (and neither of the other two is) while no
  request-thread action is set, is consumed: \<^verbatim>\<open>processMessage\<close> resolves with status
  201; the message is a processable one; in no run of any body does the processor
  receive a call for it or does a fulfilled call return it; and the reaction of its link
  fulfils the link without any call, it does not reject it. A message none of whose
  three thread-control payloads is truthy is handed to the processor as it is, whatever
  actions are configured.
\<close>

theorem thread_control_without_action_discarded:
  "((\<not> truthy (obj_get m ''take_thread_control'') \<and> truthy (obj_get m ''pass_thread_control'')
      \<and> \<not> is_set (passThreadAction opts))
   \<or> (\<not> truthy (obj_get m ''take_thread_control'') \<and> \<not> truthy (obj_get m ''pass_thread_control'')
      \<and> truthy (obj_get m ''request_thread_control'') \<and> \<not> is_set (requestThreadAction opts))
   \<longrightarrow>
      processMessage opts m sid pid = Resolved (JObj [(''status'', JNum ''201'')])
    \<and> is_process_event m
    \<and> (\<forall>b sched i c. Invoked i c \<in> set (trace (run opts sched (processEvent b))) \<longrightarrow> call_message c \<noteq> m)
    \<and> (\<forall>b sched xs q. returned (run opts sched (processEvent b)) = Some (Inr xs) \<and> q \<in> set xs
          \<longrightarrow> q_message q \<noteq> m)
    \<and> (k < length ls \<and> q_message (fst (ls ! k)) = m \<and> snd (ls ! k) = Waiting
          \<and> parent_state ls k = Fulfilled \<longrightarrow>
        react opts sid k ls = (set_state k Fulfilled ls, [])))
 \<and> (\<not> truthy (obj_get m ''take_thread_control'') \<and> \<not> truthy (obj_get m ''pass_thread_control'')
      \<and> \<not> truthy (obj_get m ''request_thread_control'') \<longrightarrow>
      processMessage opts m sid pid = Dispatched (ProcessorCall (Raw m) pid (FacebookSender opts sid m)))"
proof (intro conjI impI)
  assume "(\<not> truthy (obj_get m ''take_thread_control'') \<and> truthy (obj_get m ''pass_thread_control'')
      \<and> \<not> is_set (passThreadAction opts))
   \<or> (\<not> truthy (obj_get m ''take_thread_control'') \<and> \<not> truthy (obj_get m ''pass_thread_control'')
      \<and> truthy (obj_get m ''request_thread_control'') \<and> \<not> is_set (requestThreadAction opts))"
  then have d: "discards opts m" by (auto simp: discards_def)
  show "processMessage opts m sid pid = Resolved (JObj [(''status'', JNum ''201'')])"
    using d by (rule processMessage_discards)
  show 2: "is_process_event m" using d by (rule discards_processable)
  show "\<forall>b sched i c. Invoked i c \<in> set (trace (run opts sched (processEvent b))) \<longrightarrow> call_message c \<noteq> m"
    using discarded_never_invoked [OF d] by blast
  show "\<forall>b sched xs q. returned (run opts sched (processEvent b)) = Some (Inr xs) \<and> q \<in> set xs
          \<longrightarrow> q_message q \<noteq> m"
    using processable_not_returned [OF 2] by blast
  assume "k < length ls \<and> q_message (fst (ls ! k)) = m \<and> snd (ls ! k) = Waiting
          \<and> parent_state ls k = Fulfilled"
  then show "react opts sid k ls = (set_state k Fulfilled ls, [])"
    using d by (auto intro: react_discarded)
next
  assume "\<not> truthy (obj_get m ''take_thread_control'') \<and> \<not> truthy (obj_get m ''pass_thread_control'')
      \<and> \<not> truthy (obj_get m ''request_thread_control'')"
  then show "processMessage opts m sid pid = Dispatched (ProcessorCall (Raw m) pid (FacebookSender opts sid m))"
    by (simp add: processMessage_def)
qed

theorem thread_control_without_action_discarded_witness:
  "\<not> truthy (obj_get msg_pass ''take_thread_control'') \<and> truthy (obj_get msg_pass ''pass_thread_control'')
   \<and> \<not> is_set (passThreadAction example_options)
   \<and> processMessage example_options msg_pass (JStr ''a'') (JStr ''p1'') = Resolved (JObj [(''status'', JNum ''201'')])
   \<and> is_process_event msg_pass
   \<and> react example_options (JStr ''a'') 0 [(Queued msg_pass (JStr ''p1''), Waiting)]
        = (set_state 0 Fulfilled [(Queued msg_pass (JStr ''p1''), Waiting)], [])
   \<and> \<not> truthy (obj_get msg_pass_null ''pass_thread_control'')
   \<and> processMessage example_options msg_pass_null (JStr ''a'') (JStr ''p1'')
       = Dispatched (ProcessorCall (Raw msg_pass_null) (JStr ''p1'')
           (FacebookSender example_options (JStr ''a'') msg_pass_null))"
proof -
  have h: "\<not> truthy (obj_get msg_pass ''take_thread_control'') \<and> truthy (obj_get msg_pass ''pass_thread_control'')
      \<and> \<not> is_set (passThreadAction example_options)"
    by code_simp
  have k: "0 < length [(Queued msg_pass (JStr ''p1''), Waiting)]
      \<and> q_message (fst ([(Queued msg_pass (JStr ''p1''), Waiting)] ! 0)) = msg_pass
      \<and> snd ([(Queued msg_pass (JStr ''p1''), Waiting)] ! 0) = Waiting
      \<and> parent_state [(Queued msg_pass (JStr ''p1''), Waiting)] 0 = Fulfilled"
    by (simp add: parent_state_def)
  have n: "\<not> truthy (obj_get msg_pass_null ''take_thread_control'')
      \<and> \<not> truthy (obj_get msg_pass_null ''pass_thread_control'')
      \<and> \<not> truthy (obj_get msg_pass_null ''request_thread_control'')"
    by code_simp
  from thread_control_without_action_discarded
         [where m = msg_pass and opts = example_options and sid = "JStr ''a''" and pid = "JStr ''p1''"
            and k = 0 and ls = "[(Queued msg_pass (JStr ''p1''), Waiting)]"]
       thread_control_without_action_discarded
         [where m = msg_pass_null and opts = example_options and sid = "JStr ''a''" and pid = "JStr ''p1''"
            and k = 0 and ls = "[(Queued msg_pass (JStr ''p1''), Waiting)]"]
       h k n
  show ?thesis by blast
qed

subsection \<open>The lookup of the signature header\<close>

text \<open>
  Claim C9, as stated, fails: the header object below holds the signature under the
  name in capitals, which the case-insensitive lookup finds, and \<^verbatim>\<open>verifyRequest\<close> reads
  no signature and reports a missing header, where the same value under the lower-case
  name is accepted.
\<close>

theorem signature_lookup_counterexample:
  "lookup_ci [(''X-HUB-SIGNATURE'', JStr ''sha1=abc'')] ''x-hub-signature'' = JStr ''sha1=abc''
   \<and> signature [(''X-HUB-SIGNATURE'', JStr ''sha1=abc'')] = JUndefined
   \<and> verifyRequest (\<lambda>k b. ''abc'') example_options ''body'' [(''X-HUB-SIGNATURE'', JStr ''sha1=abc'')]
        = Inl (getUnauthorizedError ''Missing X-Hub-Signature'')
   \<and> verifyRequest (\<lambda>k b. ''abc'') example_options ''body'' [(''x-hub-signature'', JStr ''sha1=abc'')] = Inr ()"
  by (simp add: lookup_ci_def lower_char_def signature_def js_or_def obj_get_def verifyRequest_def
      example_options_def is_set_def opt_value_def index_def)

text \<open>
  Claim C9, amended. The signature is read under two spellings of the header name only:
  the value under \<^verbatim>\<open>x-hub-signature\<close> when that value is truthy, and the value under
  \<^verbatim>\<open>X-Hub-Signature\<close> otherwise. A header of any other name has no effect on it, and
  the header object has no effect on the verification but through the value read.
\<close>

theorem signature_lookup_two_spellings:
  "(truthy (obj_get headers ''x-hub-signature'') \<longrightarrow> signature headers = obj_get headers ''x-hub-signature'')
 \<and> (\<not> truthy (obj_get headers ''x-hub-signature'') \<longrightarrow> signature headers = obj_get headers ''X-Hub-Signature'')
 \<and> (k \<noteq> ''x-hub-signature'' \<and> k \<noteq> ''X-Hub-Signature'' \<longrightarrow> signature ((k, v) # headers) = signature headers)
 \<and> (signature headers = signature headers' \<longrightarrow>
       verifyRequest hmac opts body headers = verifyRequest hmac opts body headers')"
proof (intro conjI impI)
  show "truthy (obj_get headers ''x-hub-signature'') \<Longrightarrow> signature headers = obj_get headers ''x-hub-signature''"
    by (simp add: signature_def js_or_def)
  show "\<not> truthy (obj_get headers ''x-hub-signature'') \<Longrightarrow> signature headers = obj_get headers ''X-Hub-Signature''"
    by (simp add: signature_def js_or_def)
  show "k \<noteq> ''x-hub-signature'' \<and> k \<noteq> ''X-Hub-Signature'' \<Longrightarrow> signature ((k, v) # headers) = signature headers"
    by (auto simp: signature_def obj_get_def)
  show "signature headers = signature headers' \<Longrightarrow>
       verifyRequest hmac opts body headers = verifyRequest hmac opts body headers'"
    by (simp add: verifyRequest_def split: option.splits)
qed

theorem signature_lookup_two_spellings_witness:
  "signature [(''X-Hub-Signature'', JStr ''sha1=abc'')] = JStr ''sha1=abc''
   \<and> signature [(''x-hub-signature'', JStr ''sha1=abc''), (''X-Hub-Signature'', JStr ''sha1=def'')] = JStr ''sha1=abc''
   \<and> signature [(''X-HUB-SIGNATURE'', JStr ''sha1=abc'')] = signature []
   \<and> verifyRequest (\<lambda>k b. ''abc'') example_options ''body'' [(''X-HUB-SIGNATURE'', JStr ''sha1=abc'')]
       = verifyRequest (\<lambda>k b. ''abc'') example_options ''body'' []"
  using signature_lookup_two_spellings [of "[(''X-Hub-Signature'', JStr ''sha1=abc'')]" "''a''" JNull "[]" "\<lambda>k b. ''abc''" example_options "''body''"]
        signature_lookup_two_spellings [of "[(''x-hub-signature'', JStr ''sha1=abc''), (''X-Hub-Signature'', JStr ''sha1=def'')]"
          "''a''" JNull "[]" "\<lambda>k b. ''abc''" example_options "''body''"]
        signature_lookup_two_spellings [of "[]" "''X-HUB-SIGNATURE''" "JStr ''sha1=abc''"
          "[(''X-HUB-SIGNATURE'', JStr ''sha1=abc'')]" "\<lambda>k b. ''abc''" example_options "''body''"]
  by (simp add: obj_get_def)

subsection \<open>A discarded event in the chain of its sender\<close>

text \<open>
  Claim C10, as stated, fails. The first event of the body below is a take event and no
  take-thread action is configured, so the rules discard it; but its previous owner is
  an object with a property \<^verbatim>\<open>toString\<close> of its own, and the template literal of line
  136, which is evaluated before the action is looked at, throws a \<^verbatim>\<open>TypeError\<close>.
  \<^verbatim>\<open>processMessage\<close> throws instead of resolving with status 201, the link of the event
  is rejected and with it the link of the sender's next event, for which the processor
  is never called, and the call of \<^verbatim>\<open>processEvent\<close> is rejected.
\<close>

theorem discarded_take_event_rejects_chain:
  "kind_of msg_take_odd = Some ''take_thread_control''
   \<and> takeThreadAction plain_options = None
   \<and> table_discards plain_options msg_take_odd
   \<and> processMessage plain_options msg_take_odd (JStr ''a'') (JStr ''p1'') = Thrown TypeError
   \<and> snd (chains (run plain_options [React 0 0, React 0 1]
        (processEvent (two_events (JStr ''p1'') msg_take_odd msg_a1))) ! 0)
       = [(Queued msg_take_odd (JStr ''p1''), Rejected TypeError), (Queued msg_a1 (JStr ''p1''), Rejected TypeError)]
   \<and> trace (run plain_options [React 0 0, React 0 1]
        (processEvent (two_events (JStr ''p1'') msg_take_odd msg_a1))) = []
   \<and> returned (run plain_options [React 0 0, React 0 1]
        (processEvent (two_events (JStr ''p1'') msg_take_odd msg_a1))) = Some (Inl TypeError)
   \<and> trace (run plain_options (complete_schedule (processEvent (two_events (JStr ''p1'') msg_take_odd msg_a1)))
        (processEvent (two_events (JStr ''p1'') msg_take_odd msg_a1))) = []"
  by code_simp

text \<open>
  Claim C10, amended. \<^verbatim>\<open>processMessage\<close> discards a message when the first truthy one
  of its take, pass and request payloads is a take payload whose previous owner converts
  to a string without an error and either gives the string of the app identifier or no
  take-thread action is set, or a pass or request payload whose action is not set. For
  such a message \<^verbatim>\<open>processMessage\<close> resolves with the record of status 201; the reaction
  of its link, once the link before it is fulfilled, adds nothing to what the processor
  sees, leaves the link fulfilled, and so the parent of the next link is fulfilled; and
  the reaction of the next link then calls the processor for the next event, when that
  one is not discarded. \<^verbatim>\<open>processMessage\<close> resolves without the processor only for such
  messages. And for any event whose conversion does not throw, the reaction of its link
  followed by a success of the processor leaves the link fulfilled, as the reaction
  alone does for a discarded one.
\<close>

theorem discarded_event_resolves:
  "(discards opts m \<longrightarrow>
      processMessage opts m sid pid = Resolved (JObj [(''status'', JNum ''201'')])
    \<and> (i < length (chains s) \<and> k < length (snd (chains s ! i))
         \<and> q_message (fst (snd (chains s ! i) ! k)) = m
         \<and> snd (snd (chains s ! i) ! k) = Waiting \<and> parent_state (snd (chains s ! i)) k = Fulfilled \<longrightarrow>
        trace (step opts (React i k) s) = trace s
      \<and> snd (chains (step opts (React i k) s) ! i) = set_state k Fulfilled (snd (chains s ! i))
      \<and> parent_state (snd (chains (step opts (React i k) s) ! i)) (Suc k) = Fulfilled
      \<and> (Suc k < length (snd (chains s ! i)) \<and> snd (snd (chains s ! i) ! Suc k) = Waiting
           \<and> \<not> discards opts (q_message (fst (snd (chains s ! i) ! Suc k)))
           \<and> \<not> owner_conversion_throws (q_message (fst (snd (chains s ! i) ! Suc k))) \<longrightarrow>
          (\<exists>c. call_origin c = fst (snd (chains s ! i) ! Suc k)
             \<and> trace (run opts [React i k, React i (Suc k)] s) = trace s @ [Invoked i c]))))
 \<and> (processMessage opts m sid pid = Resolved v \<longrightarrow> discards opts m \<and> v = JObj [(''status'', JNum ''201'')])
 \<and> (k < length ls \<and> snd (ls ! k) = Waiting \<and> parent_state ls k = Fulfilled
      \<and> \<not> owner_conversion_throws (q_message (fst (ls ! k))) \<longrightarrow>
      fst (settle k (Succeed v) (fst (react opts sid k ls))) = set_state k Fulfilled ls)"
proof (intro conjI impI)
  assume d: "discards opts m"
  show "processMessage opts m sid pid = Resolved (JObj [(''status'', JNum ''201'')])"
    using d by (rule processMessage_discards)
  assume h: "i < length (chains s) \<and> k < length (snd (chains s ! i))
         \<and> q_message (fst (snd (chains s ! i) ! k)) = m
         \<and> snd (snd (chains s ! i) ! k) = Waiting \<and> parent_state (snd (chains s ! i)) k = Fulfilled"
  with d have d': "discards opts (q_message (fst (snd (chains s ! i) ! k)))" by simp
  from h have i: "i < length (chains s)" and k: "k < length (snd (chains s ! i))"
    and w: "snd (snd (chains s ! i) ! k) = Waiting" and p: "parent_state (snd (chains s ! i)) k = Fulfilled"
    by simp_all
  show "trace (step opts (React i k) s) = trace s"
    by (rule step_React_discarded(1) [OF i k d' w p])
  show c: "snd (chains (step opts (React i k) s) ! i) = set_state k Fulfilled (snd (chains s ! i))"
    by (rule step_React_discarded(2) [OF i k d' w p])
  show "parent_state (snd (chains (step opts (React i k) s) ! i)) (Suc k) = Fulfilled"
    unfolding c using k by (rule next_parent)
  assume n: "Suc k < length (snd (chains s ! i)) \<and> snd (snd (chains s ! i) ! Suc k) = Waiting
           \<and> \<not> discards opts (q_message (fst (snd (chains s ! i) ! Suc k)))
           \<and> \<not> owner_conversion_throws (q_message (fst (snd (chains s ! i) ! Suc k)))"
  then have k': "Suc k < length (snd (chains s ! i))"
    and w': "snd (snd (chains s ! i) ! Suc k) = Waiting"
    and nd: "\<not> discards opts (q_message (fst (snd (chains s ! i) ! Suc k)))"
    and nt: "\<not> owner_conversion_throws (q_message (fst (snd (chains s ! i) ! Suc k)))"
    by simp_all
  show "\<exists>c. call_origin c = fst (snd (chains s ! i) ! Suc k)
             \<and> trace (run opts [React i k, React i (Suc k)] s) = trace s @ [Invoked i c]"
    by (rule discarded_then_next [OF i k' w p d' w' nd nt])
next
  assume "processMessage opts m sid pid = Resolved v"
  then show "discards opts m" "v = JObj [(''status'', JNum ''201'')]"
    using processMessage_Resolved by blast+
next
  assume "k < length ls \<and> snd (ls ! k) = Waiting \<and> parent_state ls k = Fulfilled
      \<and> \<not> owner_conversion_throws (q_message (fst (ls ! k)))"
  then show "fst (settle k (Succeed v) (fst (react opts sid k ls))) = set_state k Fulfilled ls"
    by (intro react_then_succeed) simp_all
qed

theorem discarded_event_resolves_witness:
  "discards example_options msg_pass
   \<and> processMessage example_options msg_pass (JStr ''a'') (JStr ''p1'') = Resolved (JObj [(''status'', JNum ''201'')])
   \<and> trace (step example_options (React 0 0) (processEvent (two_events (JStr ''p1'') msg_pass msg_a1)))
       = trace (processEvent (two_events (JStr ''p1'') msg_pass msg_a1))
   \<and> snd (chains (step example_options (React 0 0) (processEvent (two_events (JStr ''p1'') msg_pass msg_a1))) ! 0)
       = set_state 0 Fulfilled (snd (chains (processEvent (two_events (JStr ''p1'') msg_pass msg_a1)) ! 0))
   \<and> (\<exists>c. call_origin c = Queued msg_a1 (JStr ''p1'')
         \<and> trace (run example_options [React 0 0, React 0 (Suc 0)] (processEvent (two_events (JStr ''p1'') msg_pass msg_a1)))
             = trace (processEvent (two_events (JStr ''p1'') msg_pass msg_a1)) @ [Invoked 0 c])
   \<and> fst (settle 0 (Succeed JNull) (fst (react example_options (JStr ''a'') 0 [(Queued msg_a1 (JStr ''p1''), Waiting)])))
       = set_state 0 Fulfilled [(Queued msg_a1 (JStr ''p1''), Waiting)]"
proof -
  let ?s = "processEvent (two_events (JStr ''p1'') msg_pass msg_a1)"
  have d: "discards example_options msg_pass" by code_simp
  have h: "0 < length (chains ?s)
      \<and> 0 < length (snd (chains ?s ! 0))
      \<and> q_message (fst (snd (chains ?s ! 0) ! 0)) = msg_pass
      \<and> snd (snd (chains ?s ! 0) ! 0) = Waiting
      \<and> parent_state (snd (chains ?s ! 0)) 0 = Fulfilled"
    by code_simp
  have n: "Suc 0 < length (snd (chains ?s ! 0)) \<and> snd (snd (chains ?s ! 0) ! Suc 0) = Waiting
           \<and> \<not> discards example_options (q_message (fst (snd (chains ?s ! 0) ! Suc 0)))
           \<and> \<not> owner_conversion_throws (q_message (fst (snd (chains ?s ! 0) ! Suc 0)))"
    by code_simp
  have e: "fst (snd (chains ?s ! 0) ! Suc 0) = Queued msg_a1 (JStr ''p1'')"
    by code_simp
  have k: "0 < length [(Queued msg_a1 (JStr ''p1''), Waiting)]
      \<and> snd ([(Queued msg_a1 (JStr ''p1''), Waiting)] ! 0) = Waiting
      \<and> parent_state [(Queued msg_a1 (JStr ''p1''), Waiting)] 0 = Fulfilled
      \<and> \<not> owner_conversion_throws (q_message (fst ([(Queued msg_a1 (JStr ''p1''), Waiting)] ! 0)))"
    by code_simp
  from discarded_event_resolves
         [where m = msg_pass and opts = example_options and sid = "JStr ''a''" and pid = "JStr ''p1''"
            and v = JNull and i = 0 and k = 0 and s = ?s
            and ls = "[(Queued msg_a1 (JStr ''p1''), Waiting)]"] d h n k
  have A: "processMessage example_options msg_pass (JStr ''a'') (JStr ''p1'') = Resolved (JObj [(''status'', JNum ''201'')])"
    and B: "trace (step example_options (React 0 0) ?s) = trace ?s"
    and C: "snd (chains (step example_options (React 0 0) ?s) ! 0) = set_state 0 Fulfilled (snd (chains ?s ! 0))"
    and D: "\<exists>c. call_origin c = fst (snd (chains ?s ! 0) ! Suc 0)
             \<and> trace (run example_options [React 0 0, React 0 (Suc 0)] ?s) = trace ?s @ [Invoked 0 c]"
    and E: "fst (settle 0 (Succeed JNull) (fst (react example_options (JStr ''a'') 0 [(Queued msg_a1 (JStr ''p1''), Waiting)])))
       = set_state 0 Fulfilled [(Queued msg_a1 (JStr ''p1''), Waiting)]"
    by blast+
  from D have D': "\<exists>c. call_origin c = Queued msg_a1 (JStr ''p1'')
             \<and> trace (run example_options [React 0 0, React 0 (Suc 0)] ?s) = trace ?s @ [Invoked 0 c]"
    by (simp only: e)
  from d A B C D' E show ?thesis by (intro conjI)
qed

end
